theory Spec2Isabelle
  imports Complex_Main "HOL-Library.Multiset" "HOL-Library.Product_Lexorder"
begin

section \<open>Downtime statistics of \<open>server/client.js\<close>\<close>

text \<open>
  The development embeds \<open>sendDowntimeStats\<close> of \<open>src/server/client.js\<close> (lines 48 to 131).

  Conventions of the embedding:
  \<^item> A timestamp (\<open>beat.time\<close>, \<open>startTime\<close>, \<open>endTime\<close>) is the integer number of
    milliseconds that \<open>new Date(...)\<close> yields for it, all on one clock.
  \<^item> The column \<open>time\<close> is text, \<open>YYYY-MM-DD HH:MM:SS\<close> with or without a fraction of
    three digits, and the query compares it as text with \<open>datetime(?)\<close>, which has no
    fraction. A row therefore records, besides the number, whether its text is written
    with a fraction.
  \<^item> A JavaScript number is a rational that is a double: the subtraction, the division
    and the addition of lines 89, 91, 107 and 109 round to the nearest double, ties to
    even. Overflow, subnormal numbers, \<open>NaN\<close> and the exponent notation of very large
    numbers are outside the model. Inside \<open>formatTime\<close> only floors of quotients are
    used, and they are taken exactly.
  \<^item> \<open>null\<close> is \<open>None\<close>; \<open>new Date(null)\<close> is the epoch, that is 0.
  \<^item> The store always answers: a rejected query is outside the model. The order in which
    the queries answer is the store's; it is a parameter of a pass.
\<close>

subsection \<open>Rows and emitted records\<close>

text \<open>A row of \<open>SELECT id, name, url FROM monitor\<close>.\<close>

record monitor =
  monitor_id :: int
  monitor_name :: string
  monitor_url :: string

text \<open>
  The columns of a \<open>heartbeat\<close> row that the function reads. \<open>beat_time\<close> is the number
  that \<open>new Date(beat.time)\<close> yields; \<open>beat_fraction\<close> says that the text of the column is
  written with a fraction of a second.
\<close>

record heartbeat =
  beat_monitor_id :: int
  beat_time :: int
  beat_status :: int
  beat_fraction :: bool

text \<open>An element of the array \<open>downtimeStats\<close> (lines 93 to 100 and 110 to 117).\<close>

record downtime_stat =
  stat_monitor_id :: int
  stat_monitor_name :: string
  stat_monitor_url :: string
  stat_downTime :: "int option"
  stat_upTime :: int
  stat_duration :: string

text \<open>An element of the array \<open>totalDowntimeStats\<close> (lines 122 to 127).\<close>

record total_stat =
  total_monitor_id :: int
  total_monitor_name :: string
  total_monitor_url :: string
  total_downTime :: string

text \<open>
  The variables one callback of \<open>monitorList.map\<close> works on: its locals \<open>isDown\<close>,
  \<open>downTime\<close>, \<open>totalDowntime\<close> and the array \<open>downtimeStats\<close> it pushes to, which all
  callbacks share.
\<close>

record fold_state =
  isDown :: bool
  downTime :: "int option"
  totalDowntime :: rat
  downtimeStats :: "downtime_stat list"

text \<open>The two arrays of the pass; the payload of the emission has the same two parts.\<close>

record payload =
  payload_downtimeStats :: "downtime_stat list"
  payload_totalDowntime :: "total_stat list"

text \<open>What a pass does: the range queries it issues, in order, and the payload it emits.\<close>

record pass =
  fetches :: "(int \<times> int \<times> int) list"
  emitted :: payload

subsection \<open>\<open>formatTime\<close>\<close>

text \<open>\<open>new Date(x)\<close> read as a number.\<close>

fun Date_of :: "int option \<Rightarrow> int" where
  "Date_of None = 0"
| "Date_of (Some t) = t"

text \<open>The operator \<open>%\<close> on numbers: the quotient is truncated towards zero.\<close>

definition js_rem :: "rat \<Rightarrow> rat \<Rightarrow> rat" where
  "js_rem a b = a - b * of_int (if 0 \<le> a / b then \<lfloor>a / b\<rfloor> else \<lceil>a / b\<rceil>)"

definition digit_char :: "nat \<Rightarrow> char" where
  "digit_char d = ''0123456789'' ! (d mod 10)"

text \<open>\<open>String(n)\<close> for an integral number.\<close>

fun string_of_nat :: "nat \<Rightarrow> string" where
  "string_of_nat n =
     (if n < 10 then [digit_char n] else string_of_nat (n div 10) @ [digit_char (n mod 10)])"

declare string_of_nat.simps [simp del]

definition String_of :: "int \<Rightarrow> string" where
  "String_of i = (if i < 0 then CHR ''-'' # string_of_nat (nat (- i)) else string_of_nat (nat i))"

definition padStart :: "nat \<Rightarrow> char \<Rightarrow> string \<Rightarrow> string" where
  "padStart n c s = replicate (n - length s) c @ s"

definition formatTime :: "rat \<Rightarrow> string" where
  "formatTime time =
     (let hours = padStart 2 CHR ''0'' (String_of \<lfloor>time / 3600\<rfloor>);
          minutes = padStart 2 CHR ''0'' (String_of \<lfloor>js_rem time 3600 / 60\<rfloor>);
          seconds = padStart 2 CHR ''0'' (String_of \<lfloor>js_rem time 60\<rfloor>)
      in hours @ '':'' @ minutes @ '':'' @ seconds)"

subsection \<open>Arithmetic of numbers\<close>

text \<open>
  The position of the leading bit: \<open>\<lfloor>log\<^sub>2 n\<rfloor>\<close> for an integer \<open>n \<ge> 1\<close>, and from it
  \<open>\<lfloor>log\<^sub>2 x\<rfloor>\<close> for a positive rational \<open>x\<close>.
\<close>

function ilog2 :: "int \<Rightarrow> nat" where
  "ilog2 n = (if n < 2 then 0 else Suc (ilog2 (n div 2)))"
  by pat_completeness auto
termination
  by (relation "measure nat") auto

declare ilog2.simps [simp del]

definition floor_log2 :: "rat \<Rightarrow> int" where
  "floor_log2 x =
     (if 1 \<le> x then int (ilog2 \<lfloor>x\<rfloor>)
      else - int (Suc (ilog2 (\<lceil>1 / x\<rceil> - 1))))"

text \<open>The nearest integer, the even one of two that are equally near.\<close>

definition round_half_even :: "rat \<Rightarrow> int" where
  "round_half_even x =
     (let f = \<lfloor>x\<rfloor>; r = x - of_int f
      in if r < 1 / 2 then f else if 1 / 2 < r then f + 1 else if even f then f else f + 1)"

text \<open>The nearest double: 53 significant bits.\<close>

definition round_double :: "rat \<Rightarrow> rat" where
  "round_double x =
     (if x = 0 then 0
      else (let e = floor_log2 \<bar>x\<bar> - 52
            in of_int (round_half_even (x / 2 powi e)) * 2 powi e))"

text \<open>The operators \<open>+\<close>, \<open>-\<close> and \<open>/\<close> on numbers.\<close>

definition js_add :: "rat \<Rightarrow> rat \<Rightarrow> rat" where
  "js_add x y = round_double (x + y)"

definition js_sub :: "rat \<Rightarrow> rat \<Rightarrow> rat" where
  "js_sub x y = round_double (x - y)"

definition js_div :: "rat \<Rightarrow> rat \<Rightarrow> rat" where
  "js_div x y = round_double (x / y)"

subsection \<open>The fold over the heartbeats of one monitor\<close>

text \<open>The body of \<open>heartbeats.forEach\<close> (lines 80 to 104): two \<open>if\<close> statements in sequence.\<close>

definition beat_step :: "monitor \<Rightarrow> fold_state \<Rightarrow> heartbeat \<Rightarrow> fold_state" where
  "beat_step monitor s beat =
     (let s1 = (if beat_status beat = 0 \<and> \<not> isDown s
                then s\<lparr>isDown := True, downTime := Some (beat_time beat)\<rparr>
                else s)
      in if isDown s1 \<and> beat_status beat = 1
         then
           (let upTime = beat_time beat;
                timeDifferenceSec =
                  js_div (js_sub (of_int (Date_of (Some upTime))) (of_int (Date_of (downTime s1)))) 1000;
                timeDifference = formatTime timeDifferenceSec
            in s1\<lparr>isDown := False,
                  totalDowntime := js_add (totalDowntime s1) timeDifferenceSec,
                  downtimeStats := downtimeStats s1 @
                    [\<lparr>stat_monitor_id = monitor_id monitor,
                      stat_monitor_name = monitor_name monitor,
                      stat_monitor_url = monitor_url monitor,
                      stat_downTime = downTime s1,
                      stat_upTime = upTime,
                      stat_duration = timeDifference\<rparr>],
                  downTime := None\<rparr>)
         else s1)"

definition forEach_beat :: "monitor \<Rightarrow> heartbeat list \<Rightarrow> fold_state \<Rightarrow> fold_state" where
  "forEach_beat monitor heartbeats s = foldl (beat_step monitor) s heartbeats"

text \<open>The statement \<open>if (isDown) {...}\<close> after the loop (lines 106 to 118).\<close>

definition close_open :: "monitor \<Rightarrow> int \<Rightarrow> fold_state \<Rightarrow> fold_state" where
  "close_open monitor endTime s =
     (if isDown s
      then
        (let timeDifferenceSec =
               js_div (js_sub (of_int (Date_of (Some endTime))) (of_int (Date_of (downTime s)))) 1000;
             timeDifference = formatTime timeDifferenceSec
         in s\<lparr>totalDowntime := js_add (totalDowntime s) timeDifferenceSec,
              downtimeStats := downtimeStats s @
                [\<lparr>stat_monitor_id = monitor_id monitor,
                  stat_monitor_name = monitor_name monitor,
                  stat_monitor_url = monitor_url monitor,
                  stat_downTime = downTime s,
                  stat_upTime = endTime,
                  stat_duration = timeDifference\<rparr>]\<rparr>)
      else s)"

text \<open>The locals of a callback as lines 76 to 78 initialise them, over the shared array.\<close>

definition init_state :: "downtime_stat list \<Rightarrow> fold_state" where
  "init_state stats = \<lparr>isDown = False, downTime = None, totalDowntime = 0, downtimeStats = stats\<rparr>"

text \<open>
  The part of a callback that runs once its query has answered (lines 76 to 127): it runs
  without suspending, so it is one step on the two shared arrays.
\<close>

definition monitor_callback :: "monitor \<Rightarrow> heartbeat list \<Rightarrow> int \<Rightarrow> payload \<Rightarrow> payload" where
  "monitor_callback monitor heartbeats endTime arrays =
     (let s = close_open monitor endTime
                (forEach_beat monitor heartbeats (init_state (payload_downtimeStats arrays)));
          timeDifference = formatTime (totalDowntime s)
      in \<lparr>payload_downtimeStats = downtimeStats s,
          payload_totalDowntime = payload_totalDowntime arrays @
            [\<lparr>total_monitor_id = monitor_id monitor,
              total_monitor_name = monitor_name monitor,
              total_monitor_url = monitor_url monitor,
              total_downTime = timeDifference\<rparr>]\<rparr>)"

subsection \<open>The store and the pass\<close>

text \<open>
  The query of lines 65 to 74 over the table \<open>heartbeat\<close>. \<open>datetime(?)\<close> is the text of
  its argument without the fraction, that is a count of whole seconds.
\<close>

definition datetime :: "int \<Rightarrow> int" where
  "datetime t = t div 1000"

text \<open>
  The text of a row's time has a fraction when it is written with one or when the time is
  not a whole second.
\<close>

definition has_fraction :: "heartbeat \<Rightarrow> bool" where
  "has_fraction h \<longleftrightarrow> beat_fraction h \<or> beat_time h mod 1000 \<noteq> 0"

text \<open>
  \<open>time >= datetime(?)\<close> and \<open>time <= datetime(?)\<close> compare texts. A text with a fraction
  is greater than the text of its own second, so the first holds from the second of the
  bound on, and the second holds up to the second before the bound and for a text that is
  the bound itself.
\<close>

definition time_ge :: "heartbeat \<Rightarrow> int \<Rightarrow> bool" where
  "time_ge h bound \<longleftrightarrow> bound \<le> beat_time h div 1000"

definition time_le :: "heartbeat \<Rightarrow> int \<Rightarrow> bool" where
  "time_le h bound \<longleftrightarrow>
     beat_time h div 1000 < bound \<or> (beat_time h div 1000 = bound \<and> \<not> has_fraction h)"

text \<open>\<open>ORDER BY time ASC\<close> orders the texts: by the time, a text without fraction first.\<close>

definition getAll_heartbeat :: "heartbeat list \<Rightarrow> int \<Rightarrow> int \<Rightarrow> int \<Rightarrow> heartbeat list" where
  "getAll_heartbeat heartbeatTable mid startTime endTime =
     sort_key (\<lambda>h. (beat_time h, has_fraction h))
       (filter (\<lambda>h. beat_monitor_id h = mid \<and> time_ge h (datetime startTime) \<and>
                     time_le h (datetime endTime))
          heartbeatTable)"

text \<open>
  \<open>Promise.all(monitorList.map(async ...))\<close>: every callback issues its query at once, in
  the order of \<open>monitorList\<close>, and suspends; the rest of each callback runs when its query
  answers, and the emission follows when all have run. \<open>completion\<close> lists the monitors
  in the order their queries answer; it is a run of the pass when it is a rearrangement of
  \<open>monitorList\<close>, and no run otherwise.
\<close>

definition completion_order :: "monitor list \<Rightarrow> monitor list \<Rightarrow> bool" where
  "completion_order monitorList completion \<longleftrightarrow> mset completion = mset monitorList"

definition sendDowntimeStats ::
  "monitor list \<Rightarrow> heartbeat list \<Rightarrow> monitor list \<Rightarrow> int \<Rightarrow> int \<Rightarrow> pass option" where
  "sendDowntimeStats monitorList heartbeatTable completion startTime endTime =
     (if completion_order monitorList completion
      then Some
        \<lparr>fetches = map (\<lambda>monitor. (monitor_id monitor, startTime, endTime)) monitorList,
         emitted =
           foldl (\<lambda>arrays monitor.
                    monitor_callback monitor
                      (getAll_heartbeat heartbeatTable (monitor_id monitor) startTime endTime)
                      endTime arrays)
             \<lparr>payload_downtimeStats = [], payload_totalDowntime = []\<rparr> completion\<rparr>
      else None)"

subsection \<open>Notions the properties are stated with\<close>

text \<open>The start of an emitted interval as a number, \<open>new Date(downTime)\<close>.\<close>

definition downAt :: "downtime_stat \<Rightarrow> int" where
  "downAt iv = Date_of (stat_downTime iv)"

text \<open>The length of an emitted interval in seconds, from its two ends.\<close>

definition stat_seconds :: "downtime_stat \<Rightarrow> rat" where
  "stat_seconds iv = of_int (stat_upTime iv - downAt iv) / 1000"

text \<open>The same length as the code computes it, \<open>timeDifferenceSec\<close>.\<close>

definition js_seconds :: "downtime_stat \<Rightarrow> rat" where
  "js_seconds iv = js_div (js_sub (of_int (stat_upTime iv)) (of_int (downAt iv))) 1000"

text \<open>The sum of numbers added from the left with \<open>+=\<close>, starting from 0.\<close>

definition js_sum :: "rat list \<Rightarrow> rat" where
  "js_sum xs = foldl js_add 0 xs"

text \<open>The state of one callback at line 119, started on the array \<open>stats\<close>.\<close>

definition final_state :: "monitor \<Rightarrow> heartbeat list \<Rightarrow> int \<Rightarrow> downtime_stat list \<Rightarrow> fold_state" where
  "final_state monitor heartbeats endTime stats =
     close_open monitor endTime (forEach_beat monitor heartbeats (init_state stats))"

text \<open>The intervals one callback pushes, and the value of its \<open>totalDowntime\<close> at line 121.\<close>

definition monitor_stats :: "monitor \<Rightarrow> heartbeat list \<Rightarrow> int \<Rightarrow> downtime_stat list" where
  "monitor_stats monitor heartbeats endTime = downtimeStats (final_state monitor heartbeats endTime [])"

definition monitor_seconds :: "monitor \<Rightarrow> heartbeat list \<Rightarrow> int \<Rightarrow> rat" where
  "monitor_seconds monitor heartbeats endTime = totalDowntime (final_state monitor heartbeats endTime [])"

text \<open>The record of lines 122 to 127 for a monitor and a formatted total.\<close>

definition total_record :: "monitor \<Rightarrow> string \<Rightarrow> total_stat" where
  "total_record monitor formatted =
     \<lparr>total_monitor_id = monitor_id monitor,
      total_monitor_name = monitor_name monitor,
      total_monitor_url = monitor_url monitor,
      total_downTime = formatted\<rparr>"

text \<open>The record of an interval of a monitor with the given ends.\<close>

definition stat_record :: "monitor \<Rightarrow> int option \<Rightarrow> int \<Rightarrow> downtime_stat" where
  "stat_record monitor down up =
     \<lparr>stat_monitor_id = monitor_id monitor,
      stat_monitor_name = monitor_name monitor,
      stat_monitor_url = monitor_url monitor,
      stat_downTime = down,
      stat_upTime = up,
      stat_duration =
        formatTime (js_div (js_sub (of_int (Date_of (Some up))) (of_int (Date_of down))) 1000)\<rparr>"

text \<open>Reading a decimal numeral back.\<close>

definition is_digit :: "char \<Rightarrow> bool" where
  "is_digit c \<longleftrightarrow> c \<in> set ''0123456789''"

definition digit_val :: "char \<Rightarrow> nat" where
  "digit_val c = of_char c - 48"

definition read_nat :: "string \<Rightarrow> nat" where
  "read_nat s = foldl (\<lambda>a c. 10 * a + digit_val c) 0 s"

text \<open>Rows of the two tables used in the examples.\<close>

definition mon :: "int \<Rightarrow> monitor" where
  "mon i = \<lparr>monitor_id = i, monitor_name = ''m'', monitor_url = ''http://m''\<rparr>"

definition beat :: "int \<Rightarrow> int \<Rightarrow> int \<Rightarrow> heartbeat" where
  "beat i t st = \<lparr>beat_monitor_id = i, beat_time = t, beat_status = st, beat_fraction = True\<rparr>"

definition beat_whole :: "int \<Rightarrow> int \<Rightarrow> int \<Rightarrow> heartbeat" where
  "beat_whole i t st =
     \<lparr>beat_monitor_id = i, beat_time = t, beat_status = st, beat_fraction = False\<rparr>"

text \<open>
  What the callback of a monitor contributes to a pass: its intervals, the seconds of its
  total and its record of the total, on the rows its query returns.
\<close>

definition stats_of :: "heartbeat list \<Rightarrow> int \<Rightarrow> int \<Rightarrow> monitor \<Rightarrow> downtime_stat list" where
  "stats_of heartbeatTable startTime endTime monitor =
     monitor_stats monitor
       (getAll_heartbeat heartbeatTable (monitor_id monitor) startTime endTime) endTime"

definition seconds_of :: "heartbeat list \<Rightarrow> int \<Rightarrow> int \<Rightarrow> monitor \<Rightarrow> rat" where
  "seconds_of heartbeatTable startTime endTime monitor =
     monitor_seconds monitor
       (getAll_heartbeat heartbeatTable (monitor_id monitor) startTime endTime) endTime"

definition total_of :: "heartbeat list \<Rightarrow> int \<Rightarrow> int \<Rightarrow> monitor \<Rightarrow> total_stat" where
  "total_of heartbeatTable startTime endTime monitor =
     total_record monitor (formatTime (seconds_of heartbeatTable startTime endTime monitor))"

subsection \<open>Invariants of the fold\<close>

text \<open>The times of the down and of the up observations of a sequence.\<close>

definition down_times :: "heartbeat list \<Rightarrow> int set" where
  "down_times seen = beat_time ` {b \<in> set seen. beat_status b = 0}"

definition up_times :: "heartbeat list \<Rightarrow> int set" where
  "up_times seen = beat_time ` {b \<in> set seen. beat_status b = 1}"

text \<open>
  The intervals pushed so far start at a down observation and end at an up observation
  that is not earlier; an open outage starts at a down observation that is not earlier
  than the end of any interval; the intervals are in order of time.
\<close>

definition shape_inv :: "bool \<Rightarrow> heartbeat list \<Rightarrow> fold_state \<Rightarrow> bool" where
  "shape_inv strict seen s \<longleftrightarrow>
     (\<forall>iv\<in>set (downtimeStats s).
        stat_downTime iv \<noteq> None \<and> downAt iv \<in> down_times seen \<and>
        stat_upTime iv \<in> up_times seen \<and> downAt iv \<le> stat_upTime iv \<and>
        (strict \<longrightarrow> downAt iv < stat_upTime iv)) \<and>
     (isDown s \<longrightarrow>
        downTime s \<noteq> None \<and> Date_of (downTime s) \<in> down_times seen \<and>
        (\<forall>iv\<in>set (downtimeStats s). stat_upTime iv \<le> Date_of (downTime s))) \<and>
     sorted_wrt (\<lambda>a b. stat_upTime a \<le> downAt b) (downtimeStats s)"

text \<open>
  Every down observation seen so far lies in an interval or in the open outage, and no up
  observation lies strictly inside an interval or after the start of the open outage.
\<close>

definition cover_inv :: "heartbeat list \<Rightarrow> fold_state \<Rightarrow> bool" where
  "cover_inv seen s \<longleftrightarrow>
     (\<forall>b\<in>set seen. beat_status b = 0 \<longrightarrow>
        (\<exists>iv\<in>set (downtimeStats s). downAt iv \<le> beat_time b \<and> beat_time b \<le> stat_upTime iv) \<or>
        (isDown s \<and> Date_of (downTime s) \<le> beat_time b)) \<and>
     (\<forall>b\<in>set seen. beat_status b = 1 \<longrightarrow>
        (\<forall>iv\<in>set (downtimeStats s). \<not> (downAt iv < beat_time b \<and> beat_time b < stat_upTime iv)) \<and>
        (isDown s \<longrightarrow> beat_time b \<le> Date_of (downTime s)))"

section \<open>Properties\<close>

subsection \<open>Numbers that are integers\<close>

lemma ilog2_less: "0 < k \<Longrightarrow> n < 2 ^ k \<Longrightarrow> ilog2 n < k"
proof (induction k arbitrary: n)
  case 0
  then show ?case by simp
next
  case (Suc k)
  show ?case
  proof (cases "n < 2")
    case True
    then show ?thesis by (simp add: ilog2.simps)
  next
    case False
    then have k: "0 < k" using Suc.prems(2) by (cases k) auto
    from Suc.prems(2) have "n div 2 < 2 ^ k" by auto
    with k have "ilog2 (n div 2) < k" by (rule Suc.IH)
    with False show ?thesis by (subst ilog2.simps) simp
  qed
qed

lemma round_half_even_of_int: "round_half_even (of_int z) = z"
  by (simp add: round_half_even_def)

lemma round_double_of_int:
  assumes "\<bar>n\<bar> < 2 ^ 53"
  shows "round_double (of_int n) = of_int n"
proof (cases "n = 0")
  case True
  then show ?thesis by (simp add: round_double_def)
next
  case False
  let ?L = "ilog2 \<bar>n\<bar>"
  have "?L < 53" using assms by (intro ilog2_less) simp_all
  define m where "m = 52 - ?L"
  have m: "52 = ?L + m" using \<open>?L < 53\<close> by (simp add: m_def)
  have "1 \<le> \<bar>n\<bar>" using False by simp
  then have "(1::rat) \<le> of_int \<bar>n\<bar>" by (simp only: of_int_1_le_iff)
  then have one: "(1::rat) \<le> \<bar>of_int n\<bar>" by simp
  have "floor_log2 \<bar>of_int n\<bar> = int ?L"
    using one by (simp add: floor_log2_def flip: of_int_abs)
  then have e: "floor_log2 \<bar>of_int n\<bar> - 52 = - int m" using m by simp
  have p: "(2::rat) powi (- int m) = 1 / 2 ^ m"
    by (simp add: power_int_minus field_simps)
  have "(of_int n :: rat) / (1 / 2 ^ m) = of_int (n * 2 ^ m)" by simp
  then have "round_half_even (of_int n / (1 / 2 ^ m)) = n * 2 ^ m"
    by (simp only: round_half_even_of_int)
  then show ?thesis
    using False by (simp add: round_double_def e p Let_def)
qed

lemma round_double_numeral:
  "numeral k < (9007199254740992::int) \<Longrightarrow> round_double (numeral k) = numeral k"
  using round_double_of_int [of "numeral k"] by simp

lemma round_double_zero: "round_double 0 = 0"
  by (simp add: round_double_def)

lemma js_sub_of_int:
  "\<bar>a - b\<bar> < 2 ^ 53 \<Longrightarrow> js_sub (of_int a) (of_int b) = of_int (a - b)"
  using round_double_of_int [of "a - b"] by (simp add: js_sub_def)

lemma js_add_of_int:
  "\<bar>a + b\<bar> < 2 ^ 53 \<Longrightarrow> js_add (of_int a) (of_int b) = of_int (a + b)"
  using round_double_of_int [of "a + b"] by (simp add: js_add_def)

lemma js_div_1000_of_int:
  "\<bar>k\<bar> < 2 ^ 53 \<Longrightarrow> js_div (of_int (1000 * k)) 1000 = of_int k"
  using round_double_of_int [of k] by (simp add: js_div_def)

text \<open>
  Known doubles: 0.1, the sum 0.1 + 0.2 = 0.30000000000000004, and \<open>2\<^sup>5\<^sup>3 + 1\<close>, which
  lies between two doubles and goes to the even one.
\<close>

lemma round_double_examples:
  "round_double (1 / 10) = 3602879701896397 / 2 ^ 55"
  "js_add (js_div 1 10) (js_div 2 10) = 5404319552844596 / 2 ^ 54"
  "round_double 9007199254740993 = 9007199254740992"
  by code_simp+

subsection \<open>The steps of the fold\<close>

lemma beat_step_other:
  "beat_status b \<noteq> 0 \<Longrightarrow> beat_status b \<noteq> 1 \<Longrightarrow> beat_step m s b = s"
  by (simp add: beat_step_def)

lemma beat_step_open:
  "beat_status b = 0 \<Longrightarrow> \<not> isDown s \<Longrightarrow>
   beat_step m s b = s\<lparr>isDown := True, downTime := Some (beat_time b)\<rparr>"
  by (simp add: beat_step_def)

lemma beat_step_close:
  "beat_status b = 1 \<Longrightarrow> isDown s \<Longrightarrow>
   beat_step m s b =
     s\<lparr>isDown := False,
       totalDowntime := js_add (totalDowntime s)
         (js_div (js_sub (of_int (beat_time b)) (of_int (Date_of (downTime s)))) 1000),
       downtimeStats := downtimeStats s @ [stat_record m (downTime s) (beat_time b)],
       downTime := None\<rparr>"
  by (simp add: beat_step_def Let_def stat_record_def)

lemma beat_step_stay_down:
  "isDown s \<Longrightarrow> beat_status b \<noteq> 1 \<Longrightarrow> beat_step m s b = s"
  by (simp add: beat_step_def)

lemma beat_step_stay_up:
  "\<not> isDown s \<Longrightarrow> beat_status b \<noteq> 0 \<Longrightarrow> beat_step m s b = s"
  by (simp add: beat_step_def)

lemma beat_step_cases:
  obtains (opens) "beat_status b = 0" "\<not> isDown s"
  | (closes) "beat_status b = 1" "isDown s"
  | (stays) "beat_step m s b = s" "isDown s \<longrightarrow> beat_status b \<noteq> 1" "\<not> isDown s \<longrightarrow> beat_status b \<noteq> 0"
  by (cases "isDown s"; cases "beat_status b = 0"; cases "beat_status b = 1")
     (simp_all add: beat_step_stay_down beat_step_stay_up)

lemma close_open_down:
  "isDown s \<Longrightarrow>
   close_open m e s =
     s\<lparr>totalDowntime := js_add (totalDowntime s)
         (js_div (js_sub (of_int e) (of_int (Date_of (downTime s)))) 1000),
       downtimeStats := downtimeStats s @ [stat_record m (downTime s) e]\<rparr>"
  by (simp add: close_open_def Let_def stat_record_def)

lemma close_open_up: "\<not> isDown s \<Longrightarrow> close_open m e s = s"
  by (simp add: close_open_def)

lemma forEach_beat_append:
  "forEach_beat m (xs @ ys) s = forEach_beat m ys (forEach_beat m xs s)"
  by (simp add: forEach_beat_def)

lemma forEach_beat_Cons:
  "forEach_beat m (b # bs) s = forEach_beat m bs (beat_step m s b)"
  by (simp add: forEach_beat_def)

lemma forEach_beat_Nil: "forEach_beat m [] s = s"
  by (simp add: forEach_beat_def)

lemma forEach_beat_snoc:
  "forEach_beat m (bs @ [b]) s = beat_step m (forEach_beat m bs s) b"
  by (simp add: forEach_beat_def)

text \<open>What is already in the shared array is kept in front.\<close>

lemma beat_step_prefix:
  "beat_step m (s\<lparr>downtimeStats := acc @ downtimeStats s\<rparr>) b =
   (beat_step m s b)\<lparr>downtimeStats := acc @ downtimeStats (beat_step m s b)\<rparr>"
  by (simp add: beat_step_def Let_def)

lemma forEach_beat_prefix:
  "forEach_beat m bs (s\<lparr>downtimeStats := acc @ downtimeStats s\<rparr>) =
   (forEach_beat m bs s)\<lparr>downtimeStats := acc @ downtimeStats (forEach_beat m bs s)\<rparr>"
proof (induction bs arbitrary: s)
  case Nil
  show ?case by (simp add: forEach_beat_Nil)
next
  case (Cons b bs)
  show ?case by (simp add: forEach_beat_Cons beat_step_prefix Cons.IH)
qed

lemma close_open_prefix:
  "close_open m e (s\<lparr>downtimeStats := acc @ downtimeStats s\<rparr>) =
   (close_open m e s)\<lparr>downtimeStats := acc @ downtimeStats (close_open m e s)\<rparr>"
  by (simp add: close_open_def Let_def)

lemma init_state_prefix: "init_state acc = (init_state [])\<lparr>downtimeStats := acc @ downtimeStats (init_state [])\<rparr>"
  by (simp add: init_state_def)

lemma final_state_prefix:
  "final_state m bs e acc =
   (final_state m bs e [])\<lparr>downtimeStats := acc @ downtimeStats (final_state m bs e [])\<rparr>"
  unfolding final_state_def
  by (subst init_state_prefix) (simp only: forEach_beat_prefix close_open_prefix)

lemma monitor_callback_eq:
  "monitor_callback m bs e arrays =
     \<lparr>payload_downtimeStats = payload_downtimeStats arrays @ monitor_stats m bs e,
      payload_totalDowntime = payload_totalDowntime arrays @
        [total_record m (formatTime (monitor_seconds m bs e))]\<rparr>"
proof -
  have "monitor_callback m bs e arrays =
     \<lparr>payload_downtimeStats = downtimeStats (final_state m bs e (payload_downtimeStats arrays)),
      payload_totalDowntime = payload_totalDowntime arrays @
        [total_record m (formatTime (totalDowntime (final_state m bs e (payload_downtimeStats arrays))))]\<rparr>"
    by (simp add: monitor_callback_def final_state_def Let_def total_record_def)
  also have "final_state m bs e (payload_downtimeStats arrays) =
     (final_state m bs e [])\<lparr>downtimeStats := payload_downtimeStats arrays @ downtimeStats (final_state m bs e [])\<rparr>"
    by (rule final_state_prefix)
  finally show ?thesis
    by (simp add: monitor_stats_def monitor_seconds_def)
qed

subsection \<open>Observations that cause no transition\<close>

text \<open>
  C10. An observation whose status is neither 0 nor 1 leaves the locals \<open>isDown\<close>, \<open>downTime\<close>,
  \<open>totalDowntime\<close> and the array of intervals as they are: the step is the identity, and
  the loop gives the same state with the observation as without it.
\<close>

theorem other_status_leaves_state:
  assumes "beat_status b \<noteq> 0" and "beat_status b \<noteq> 1"
  shows "beat_step m s b = s \<and>
         forEach_beat m (xs @ b # ys) s = forEach_beat m (xs @ ys) s"
  using assms by (simp add: beat_step_other forEach_beat_append forEach_beat_Cons)

theorem other_status_leaves_state_witness:
  "beat_status (beat 1 7 2) \<noteq> 0 \<and> beat_status (beat 1 7 2) \<noteq> 1 \<and>
   beat_step (mon 1) (beat_step (mon 1) (init_state []) (beat 1 5 0)) (beat 1 7 2) =
     beat_step (mon 1) (init_state []) (beat 1 5 0) \<and>
   forEach_beat (mon 1) ([beat 1 5 0] @ beat 1 7 2 # [beat 1 9 1]) (init_state []) =
     forEach_beat (mon 1) ([beat 1 5 0] @ [beat 1 9 1]) (init_state [])"
  using other_status_leaves_state [of "beat 1 7 2" "mon 1"
      "beat_step (mon 1) (init_state []) (beat 1 5 0)"]
    other_status_leaves_state [of "beat 1 7 2" "mon 1" "init_state []" "[beat 1 5 0]" "[beat 1 9 1]"]
  by (simp add: beat_def)

text \<open>
  C6. A second observation with the status of the one before it changes nothing: the step
  for it is the identity on the state the first one left, so a callback gives the same
  two arrays (the same intervals and the same total) with and without it.
\<close>

theorem repeated_status_changes_nothing:
  assumes "beat_status b' = beat_status b"
  shows "beat_step m (beat_step m s b) b' = beat_step m s b \<and>
         monitor_callback m (xs @ b # b' # ys) endTime arrays =
           monitor_callback m (xs @ b # ys) endTime arrays"
  using assms
  by (simp add: monitor_callback_def forEach_beat_append forEach_beat_Cons beat_step_def Let_def)

theorem repeated_status_changes_nothing_witness:
  "beat_status (beat 1 300000 0) = beat_status (beat 1 300000 0) \<and>
   monitor_callback (mon 1) ([] @ beat 1 300000 0 # beat 1 300000 0 # [beat 1 1200000 1]) 3600000
       \<lparr>payload_downtimeStats = [], payload_totalDowntime = []\<rparr> =
     monitor_callback (mon 1) ([] @ beat 1 300000 0 # [beat 1 1200000 1]) 3600000
       \<lparr>payload_downtimeStats = [], payload_totalDowntime = []\<rparr> \<and>
   monitor_callback (mon 1) [beat 1 300000 0, beat 1 300000 0, beat 1 1200000 1] 3600000
       \<lparr>payload_downtimeStats = [], payload_totalDowntime = []\<rparr> =
     \<lparr>payload_downtimeStats =
        [\<lparr>stat_monitor_id = 1, stat_monitor_name = ''m'', stat_monitor_url = ''http://m'',
          stat_downTime = Some 300000, stat_upTime = 1200000, stat_duration = ''00:15:00''\<rparr>],
      payload_totalDowntime =
        [\<lparr>total_monitor_id = 1, total_monitor_name = ''m'', total_monitor_url = ''http://m'',
          total_downTime = ''00:15:00''\<rparr>]\<rparr>"
proof -
  have fmt: "formatTime 900 = ''00:15:00''" by code_simp
  have ex: "monitor_callback (mon 1) [beat 1 300000 0, beat 1 300000 0, beat 1 1200000 1] 3600000
       \<lparr>payload_downtimeStats = [], payload_totalDowntime = []\<rparr> =
     \<lparr>payload_downtimeStats =
        [\<lparr>stat_monitor_id = 1, stat_monitor_name = ''m'', stat_monitor_url = ''http://m'',
          stat_downTime = Some 300000, stat_upTime = 1200000, stat_duration = ''00:15:00''\<rparr>],
      payload_totalDowntime =
        [\<lparr>total_monitor_id = 1, total_monitor_name = ''m'', total_monitor_url = ''http://m'',
          total_downTime = ''00:15:00''\<rparr>]\<rparr>"
    by (simp add: monitor_callback_def forEach_beat_def beat_step_def close_open_def
        init_state_def beat_def mon_def Let_def js_add_def js_sub_def js_div_def
        round_double_numeral fmt)
  show ?thesis
    using repeated_status_changes_nothing [of "beat 1 300000 0" "beat 1 300000 0" "mon 1" "init_state []"
        "[]" "[beat 1 1200000 1]" 3600000 "\<lparr>payload_downtimeStats = [], payload_totalDowntime = []\<rparr>"] ex
    by simp
qed

subsection \<open>No down observation\<close>

lemma formatTime_zero: "formatTime 0 = ''00:00:00''"
  by code_simp





subsection \<open>An outage open at the end of the window\<close>

lemma beat_step_down_has_time:
  "isDown s \<longrightarrow> downTime s \<noteq> None \<Longrightarrow>
   isDown (beat_step m s b) \<longrightarrow> downTime (beat_step m s b) \<noteq> None"
  by (simp add: beat_step_def Let_def)

lemma forEach_beat_down_has_time:
  "isDown s \<longrightarrow> downTime s \<noteq> None \<Longrightarrow>
   isDown (forEach_beat m bs s) \<longrightarrow> downTime (forEach_beat m bs s) \<noteq> None"
proof (induction bs arbitrary: s)
  case Nil
  then show ?case by (simp add: forEach_beat_Nil)
next
  case (Cons b bs)
  show ?case
    unfolding forEach_beat_Cons
    by (rule Cons.IH) (rule beat_step_down_has_time, rule Cons.prems)
qed

lemma last_down_is_down:
  assumes "bs \<noteq> []" and "beat_status (last bs) = 0"
  shows "isDown (forEach_beat m bs s)"
proof -
  obtain xs b where bs: "bs = xs @ [b]"
    using assms(1) by (metis append_butlast_last_id)
  with assms(2) have "beat_status b = 0" by simp
  then show ?thesis
    by (simp add: bs forEach_beat_snoc beat_step_def)
qed

text \<open>
  C4. When the last observation of a callback is down, the loop ends with \<open>isDown\<close> true
  and a start \<open>d\<close> in \<open>downTime\<close>. The statement after the loop then pushes exactly one
  more interval, from \<open>d\<close> to \<open>endTime\<close>, and adds its length
  \<open>(endTime - d) / 1000\<close> seconds to \<open>totalDowntime\<close>, with the operators of numbers. For
  a whole number of seconds added to a whole number of seconds this is the exact sum.
\<close>

theorem open_outage_closed_at_endTime:
  assumes "heartbeats \<noteq> []" and "beat_status (last heartbeats) = 0"
  shows "isDown (forEach_beat monitor heartbeats (init_state stats)) \<and>
    (\<exists>d. downTime (forEach_beat monitor heartbeats (init_state stats)) = Some d \<and>
      downtimeStats (final_state monitor heartbeats endTime stats) =
        downtimeStats (forEach_beat monitor heartbeats (init_state stats)) @
          [\<lparr>stat_monitor_id = monitor_id monitor,
            stat_monitor_name = monitor_name monitor,
            stat_monitor_url = monitor_url monitor,
            stat_downTime = Some d,
            stat_upTime = endTime,
            stat_duration =
              formatTime (js_div (js_sub (of_int endTime) (of_int d)) 1000)\<rparr>] \<and>
      totalDowntime (final_state monitor heartbeats endTime stats) =
        js_add (totalDowntime (forEach_beat monitor heartbeats (init_state stats)))
          (js_div (js_sub (of_int endTime) (of_int d)) 1000) \<and>
      (\<forall>T k. totalDowntime (forEach_beat monitor heartbeats (init_state stats)) = of_int T \<and>
         endTime - d = 1000 * k \<and> \<bar>endTime - d\<bar> < 2 ^ 53 \<and> \<bar>T + k\<bar> < 2 ^ 53 \<longrightarrow>
         totalDowntime (final_state monitor heartbeats endTime stats) =
           totalDowntime (forEach_beat monitor heartbeats (init_state stats)) +
             of_int (endTime - d) / 1000))"
proof -
  let ?s = "forEach_beat monitor heartbeats (init_state stats)"
  have down: "isDown ?s" using assms by (rule last_down_is_down)
  have "isDown (init_state stats) \<longrightarrow> downTime (init_state stats) \<noteq> None"
    by (simp add: init_state_def)
  then have "isDown ?s \<longrightarrow> downTime ?s \<noteq> None"
    by (rule forEach_beat_down_has_time)
  with down obtain d where d: "downTime ?s = Some d" by auto
  have fin: "final_state monitor heartbeats endTime stats = close_open monitor endTime ?s"
    by (simp add: final_state_def)
  have total: "totalDowntime (final_state monitor heartbeats endTime stats) =
      js_add (totalDowntime ?s) (js_div (js_sub (of_int endTime) (of_int d)) 1000)"
    using down d by (simp add: fin close_open_down)
  have exact: "\<forall>T k. totalDowntime ?s = of_int T \<and> endTime - d = 1000 * k \<and>
      \<bar>endTime - d\<bar> < 2 ^ 53 \<and> \<bar>T + k\<bar> < 2 ^ 53 \<longrightarrow>
      totalDowntime (final_state monitor heartbeats endTime stats) =
        totalDowntime ?s + of_int (endTime - d) / 1000"
  proof (intro allI impI)
    fix T k
    assume a: "totalDowntime ?s = of_int T \<and> endTime - d = 1000 * k \<and>
      \<bar>endTime - d\<bar> < 2 ^ 53 \<and> \<bar>T + k\<bar> < 2 ^ 53"
    then have k: "endTime - d = 1000 * k" and b1: "\<bar>endTime - d\<bar> < 2 ^ 53"
      and b3: "\<bar>T + k\<bar> < 2 ^ 53" and T: "totalDowntime ?s = of_int T"
      by blast+
    from k b1 have b2: "\<bar>k\<bar> < 2 ^ 53" by linarith
    have "js_sub (of_int endTime) (of_int d) = of_int (1000 * k)"
      using b1 by (simp only: js_sub_of_int k)
    then have "js_div (js_sub (of_int endTime) (of_int d)) 1000 = of_int k"
      using b2 by (simp only: js_div_1000_of_int)
    then have "totalDowntime (final_state monitor heartbeats endTime stats) = of_int (T + k)"
      using b3 by (simp only: total T js_add_of_int)
    moreover have "(of_int (endTime - d) :: rat) / 1000 = of_int k"
      by (simp add: k)
    ultimately show "totalDowntime (final_state monitor heartbeats endTime stats) =
        totalDowntime ?s + of_int (endTime - d) / 1000"
      by (simp add: T)
  qed
  have "downtimeStats (final_state monitor heartbeats endTime stats) =
      downtimeStats ?s @
        [\<lparr>stat_monitor_id = monitor_id monitor,
          stat_monitor_name = monitor_name monitor,
          stat_monitor_url = monitor_url monitor,
          stat_downTime = Some d,
          stat_upTime = endTime,
          stat_duration = formatTime (js_div (js_sub (of_int endTime) (of_int d)) 1000)\<rparr>]"
    using down d by (simp add: fin close_open_down stat_record_def)
  with down d total exact show ?thesis by blast
qed

theorem open_outage_closed_at_endTime_witness:
  "[beat 1 3000000 0] \<noteq> [] \<and> beat_status (last [beat 1 3000000 0]) = 0 \<and>
   isDown (forEach_beat (mon 1) [beat 1 3000000 0] (init_state [])) \<and>
   downtimeStats (final_state (mon 1) [beat 1 3000000 0] 3600000 []) =
     [\<lparr>stat_monitor_id = 1, stat_monitor_name = ''m'', stat_monitor_url = ''http://m'',
       stat_downTime = Some 3000000, stat_upTime = 3600000, stat_duration = ''00:10:00''\<rparr>] \<and>
   totalDowntime (final_state (mon 1) [beat 1 3000000 0] 3600000 []) = 600"
proof -
  have run: "forEach_beat (mon 1) [beat 1 3000000 0] (init_state []) =
      \<lparr>isDown = True, downTime = Some 3000000, totalDowntime = 0, downtimeStats = []\<rparr>"
    by (simp add: forEach_beat_def beat_step_def beat_def init_state_def)
  have fmt: "formatTime 600 = ''00:10:00''" by code_simp
  have js: "js_div (js_sub 3600000 3000000) 1000 = 600" "js_add 0 600 = 600"
    by (simp_all add: js_add_def js_sub_def js_div_def round_double_numeral)
  show ?thesis
    using open_outage_closed_at_endTime [of "[beat 1 3000000 0]" "mon 1" "[]" 3600000]
    by (simp add: run fmt js) (simp add: beat_def mon_def)
qed

subsection \<open>An outage that starts with the first observation\<close>





subsection \<open>Invariants of the fold over ascending observations\<close>

lemma down_times_snoc:
  "down_times (seen @ [b]) = (if beat_status b = 0 then insert (beat_time b) (down_times seen) else down_times seen)"
  by (auto simp add: down_times_def)

lemma up_times_snoc:
  "up_times (seen @ [b]) = (if beat_status b = 1 then insert (beat_time b) (up_times seen) else up_times seen)"
  by (auto simp add: up_times_def)

lemma down_times_subset: "down_times seen \<subseteq> beat_time ` set seen"
  by (auto simp add: down_times_def)

lemma up_times_subset: "up_times seen \<subseteq> beat_time ` set seen"
  by (auto simp add: up_times_def)

lemma stat_record_sel [simp]:
  "stat_downTime (stat_record m d u) = d"
  "stat_upTime (stat_record m d u) = u"
  "stat_monitor_id (stat_record m d u) = monitor_id m"
  "downAt (stat_record m d u) = Date_of d"
  "stat_seconds (stat_record m d u) = of_int (u - Date_of d) / 1000"
  "js_seconds (stat_record m d u) = js_div (js_sub (of_int u) (of_int (Date_of d))) 1000"
  by (simp_all add: stat_record_def downAt_def stat_seconds_def js_seconds_def)

lemma shape_inv_step:
  assumes inv: "shape_inv strict seen s"
    and le: "\<forall>t\<in>beat_time ` set seen. t \<le> beat_time b"
    and lt: "strict \<longrightarrow> (\<forall>t\<in>beat_time ` set seen. t < beat_time b)"
  shows "shape_inv strict (seen @ [b]) (beat_step m s b)"
proof (cases rule: beat_step_cases [where b = b and s = s and m = m])
  case opens
  have up: "\<forall>iv\<in>set (downtimeStats s). stat_upTime iv \<le> beat_time b"
    using inv le up_times_subset [of seen] by (auto simp add: shape_inv_def)
  show ?thesis
    using inv opens up
    by (simp add: beat_step_open shape_inv_def down_times_snoc up_times_snoc)
next
  case closes
  from inv closes have d: "downTime s \<noteq> None" "Date_of (downTime s) \<in> down_times seen"
    "\<forall>iv\<in>set (downtimeStats s). stat_upTime iv \<le> Date_of (downTime s)"
    by (simp_all add: shape_inv_def)
  from d(2) le down_times_subset [of seen] have dle: "Date_of (downTime s) \<le> beat_time b"
    by auto
  from d(2) lt down_times_subset [of seen] have dlt: "strict \<longrightarrow> Date_of (downTime s) < beat_time b"
    by auto
  show ?thesis
    using inv closes d dle dlt
    by (simp add: beat_step_close shape_inv_def down_times_snoc up_times_snoc
        sorted_wrt_append ball_Un)
next
  case stays
  show ?thesis
    using inv stays
    by (auto simp add: shape_inv_def down_times_snoc up_times_snoc)
qed

lemma shape_inv_run:
  assumes "sorted (map beat_time bs)" and "strict \<longrightarrow> distinct (map beat_time bs)"
  shows "shape_inv strict bs (forEach_beat m bs (init_state []))"
  using assms
proof (induction bs rule: rev_induct)
  case Nil
  show ?case by (simp add: forEach_beat_Nil shape_inv_def init_state_def)
next
  case (snoc b bs)
  from snoc.prems have sorted: "sorted (map beat_time bs)"
    and le: "\<forall>t\<in>beat_time ` set bs. t \<le> beat_time b"
    by (auto simp add: sorted_append)
  from snoc.prems(2) have dist: "strict \<longrightarrow> distinct (map beat_time bs)"
    and notin: "strict \<longrightarrow> beat_time b \<notin> beat_time ` set bs"
    by auto
  from le notin have lt: "strict \<longrightarrow> (\<forall>t\<in>beat_time ` set bs. t < beat_time b)"
    by (metis order_le_imp_less_or_eq)
  have "shape_inv strict bs (forEach_beat m bs (init_state []))"
    using sorted dist by (rule snoc.IH)
  then show ?case
    unfolding forEach_beat_snoc using le lt by (rule shape_inv_step)
qed


lemma cover_inv_step:
  assumes cov: "cover_inv seen s"
    and shape: "shape_inv False seen s"
    and le: "\<forall>t\<in>beat_time ` set seen. t \<le> beat_time b"
  shows "cover_inv (seen @ [b]) (beat_step m s b)"
proof (cases rule: beat_step_cases [where b = b and s = s and m = m])
  case opens
  show ?thesis
    using cov opens le
    by (auto simp add: beat_step_open cover_inv_def)
next
  case closes
  have up: "\<forall>iv\<in>set (downtimeStats s). stat_upTime iv \<le> beat_time b"
    using shape le up_times_subset [of seen] by (auto simp add: shape_inv_def)
  have down: "\<forall>c\<in>set seen. beat_status c = 0 \<longrightarrow>
      (\<exists>iv\<in>set (downtimeStats s). downAt iv \<le> beat_time c \<and> beat_time c \<le> stat_upTime iv) \<or>
      (Date_of (downTime s) \<le> beat_time c \<and> beat_time c \<le> beat_time b)"
    using cov le by (auto simp add: cover_inv_def)
  have ups: "\<forall>c\<in>set seen. beat_status c = 1 \<longrightarrow>
      (\<forall>iv\<in>set (downtimeStats s). \<not> (downAt iv < beat_time c \<and> beat_time c < stat_upTime iv)) \<and>
      beat_time c \<le> Date_of (downTime s)"
    using cov closes by (auto simp add: cover_inv_def)
  let ?s' = "beat_step m s b"
  have s': "\<not> isDown ?s'"
    "set (downtimeStats ?s') = insert (stat_record m (downTime s) (beat_time b)) (set (downtimeStats s))"
    by (simp_all add: beat_step_close [OF closes])
  have "\<forall>c\<in>set (seen @ [b]). beat_status c = 0 \<longrightarrow>
      (\<exists>iv\<in>set (downtimeStats ?s'). downAt iv \<le> beat_time c \<and> beat_time c \<le> stat_upTime iv)"
  proof (intro ballI impI)
    fix c assume "c \<in> set (seen @ [b])" and c0: "beat_status c = 0"
    with closes have "c \<in> set seen" by auto
    with down c0 show "\<exists>iv\<in>set (downtimeStats ?s'). downAt iv \<le> beat_time c \<and> beat_time c \<le> stat_upTime iv"
      unfolding s' by auto
  qed
  moreover have "\<forall>c\<in>set (seen @ [b]). beat_status c = 1 \<longrightarrow>
      (\<forall>iv\<in>set (downtimeStats ?s'). \<not> (downAt iv < beat_time c \<and> beat_time c < stat_upTime iv))"
  proof (intro ballI impI)
    fix c iv assume c: "c \<in> set (seen @ [b])" and c1: "beat_status c = 1"
      and iv: "iv \<in> set (downtimeStats ?s')"
    show "\<not> (downAt iv < beat_time c \<and> beat_time c < stat_upTime iv)"
    proof (cases "c = b")
      case True
      with up iv show ?thesis unfolding s' by (auto simp add: not_less)
    next
      case False
      with c have "c \<in> set seen" by auto
      with ups c1 iv show ?thesis unfolding s' by (auto simp add: not_less)
    qed
  qed
  ultimately show ?thesis
    using s'(1) by (simp add: cover_inv_def)
next
  case stays
  have up: "\<forall>iv\<in>set (downtimeStats s). stat_upTime iv \<le> beat_time b"
    using shape le up_times_subset [of seen] by (auto simp add: shape_inv_def)
  have pend: "isDown s \<longrightarrow> Date_of (downTime s) \<le> beat_time b"
    using shape le down_times_subset [of seen] by (auto simp add: shape_inv_def)
  show ?thesis
    using cov stays up pend
    by (auto simp add: cover_inv_def not_less)
qed


lemma cover_inv_run:
  assumes "sorted (map beat_time bs)"
  shows "cover_inv bs (forEach_beat m bs (init_state []))"
  using assms
proof (induction bs rule: rev_induct)
  case Nil
  show ?case by (simp add: cover_inv_def)
next
  case (snoc b bs)
  from snoc.prems have sorted: "sorted (map beat_time bs)"
    and le: "\<forall>t\<in>beat_time ` set bs. t \<le> beat_time b"
    by (auto simp add: sorted_append)
  have "cover_inv bs (forEach_beat m bs (init_state []))"
    using sorted by (rule snoc.IH)
  moreover have "shape_inv False bs (forEach_beat m bs (init_state []))"
    using sorted by (simp add: shape_inv_run)
  ultimately show ?case
    unfolding forEach_beat_snoc using le by (rule cover_inv_step)
qed

subsection \<open>The total and the monitor of the pushed intervals\<close>

lemma js_sum_snoc: "js_sum (xs @ [x]) = js_add (js_sum xs) x"
  by (simp add: js_sum_def)

lemma beat_step_total:
  "totalDowntime s = js_sum (map js_seconds (downtimeStats s)) \<Longrightarrow>
   totalDowntime (beat_step m s b) = js_sum (map js_seconds (downtimeStats (beat_step m s b)))"
  by (cases rule: beat_step_cases [where b = b and s = s and m = m])
     (simp_all add: beat_step_open beat_step_close js_sum_snoc)

lemma forEach_beat_total:
  "totalDowntime s = js_sum (map js_seconds (downtimeStats s)) \<Longrightarrow>
   totalDowntime (forEach_beat m bs s) = js_sum (map js_seconds (downtimeStats (forEach_beat m bs s)))"
proof (induction bs arbitrary: s)
  case Nil
  then show ?case by (simp add: forEach_beat_Nil)
next
  case (Cons b bs)
  show ?case
    unfolding forEach_beat_Cons
    by (rule Cons.IH) (rule beat_step_total, rule Cons.prems)
qed

lemma close_open_total:
  "totalDowntime s = js_sum (map js_seconds (downtimeStats s)) \<Longrightarrow>
   totalDowntime (close_open m e s) = js_sum (map js_seconds (downtimeStats (close_open m e s)))"
  by (cases "isDown s") (simp_all add: close_open_down close_open_up js_sum_snoc)

lemma monitor_seconds_sum:
  "monitor_seconds m bs e = js_sum (map js_seconds (monitor_stats m bs e))"
  unfolding monitor_seconds_def monitor_stats_def final_state_def
  by (intro close_open_total forEach_beat_total) (simp add: init_state_def js_sum_def)

lemma beat_step_monitor_id:
  "\<forall>iv\<in>set (downtimeStats s). stat_monitor_id iv = monitor_id m \<Longrightarrow>
   \<forall>iv\<in>set (downtimeStats (beat_step m s b)). stat_monitor_id iv = monitor_id m"
  by (cases rule: beat_step_cases [where b = b and s = s and m = m])
     (simp_all add: beat_step_open beat_step_close)

lemma forEach_beat_monitor_id:
  "\<forall>iv\<in>set (downtimeStats s). stat_monitor_id iv = monitor_id m \<Longrightarrow>
   \<forall>iv\<in>set (downtimeStats (forEach_beat m bs s)). stat_monitor_id iv = monitor_id m"
proof (induction bs arbitrary: s)
  case Nil
  then show ?case by (simp add: forEach_beat_Nil)
next
  case (Cons b bs)
  show ?case
    unfolding forEach_beat_Cons
    by (rule Cons.IH) (rule beat_step_monitor_id, rule Cons.prems)
qed

lemma close_open_monitor_id:
  "\<forall>iv\<in>set (downtimeStats s). stat_monitor_id iv = monitor_id m \<Longrightarrow>
   \<forall>iv\<in>set (downtimeStats (close_open m e s)). stat_monitor_id iv = monitor_id m"
  by (cases "isDown s") (simp_all add: close_open_down close_open_up)

lemma monitor_stats_monitor_id:
  "\<forall>iv\<in>set (monitor_stats m bs e). stat_monitor_id iv = monitor_id m"
  unfolding monitor_stats_def final_state_def
  by (intro close_open_monitor_id forEach_beat_monitor_id) (simp add: init_state_def)

subsection \<open>The intervals of one callback\<close>

lemma monitor_stats_cases:
  obtains (closed) "\<not> isDown (forEach_beat m bs (init_state []))"
      "monitor_stats m bs e = downtimeStats (forEach_beat m bs (init_state []))"
  | (opened) "isDown (forEach_beat m bs (init_state []))"
      "monitor_stats m bs e = downtimeStats (forEach_beat m bs (init_state [])) @
         [stat_record m (downTime (forEach_beat m bs (init_state []))) e]"
  by (cases "isDown (forEach_beat m bs (init_state []))")
     (simp_all add: monitor_stats_def final_state_def close_open_down close_open_up)

lemma monitor_stats_ordered:
  assumes "sorted (map beat_time bs)"
  shows "sorted_wrt (\<lambda>a b. stat_upTime a \<le> downAt b) (monitor_stats m bs e)"
proof -
  have "shape_inv False bs (forEach_beat m bs (init_state []))"
    using assms by (simp add: shape_inv_run)
  then show ?thesis
    by (cases rule: monitor_stats_cases [where m = m and bs = bs and e = e])
       (simp_all add: shape_inv_def sorted_wrt_append)
qed

lemma monitor_stats_downAt_ordered:
  assumes "sorted (map beat_time bs)"
  shows "sorted_wrt (\<lambda>a b. downAt a \<le> downAt b) (monitor_stats m bs e)"
proof -
  let ?s = "forEach_beat m bs (init_state [])"
  have inv: "shape_inv False bs ?s"
    using assms by (simp add: shape_inv_run)
  then have "sorted_wrt (\<lambda>a b. stat_upTime a \<le> downAt b) (downtimeStats ?s)"
    and le: "\<forall>iv\<in>set (downtimeStats ?s). downAt iv \<le> stat_upTime iv"
    by (simp_all add: shape_inv_def)
  then have loop: "sorted_wrt (\<lambda>a b. downAt a \<le> downAt b) (downtimeStats ?s)"
    by (auto elim!: sorted_wrt_mono_rel [rotated])
  show ?thesis
  proof (cases rule: monitor_stats_cases [where m = m and bs = bs and e = e])
    case closed
    with loop show ?thesis by simp
  next
    case opened
    with inv have up: "\<forall>iv\<in>set (downtimeStats ?s). stat_upTime iv \<le> Date_of (downTime ?s)"
      by (simp add: shape_inv_def)
    have "\<forall>iv\<in>set (downtimeStats ?s). downAt iv \<le> Date_of (downTime ?s)"
    proof
      fix iv assume "iv \<in> set (downtimeStats ?s)"
      with le up have "downAt iv \<le> stat_upTime iv" and "stat_upTime iv \<le> Date_of (downTime ?s)"
        by simp_all
      then show "downAt iv \<le> Date_of (downTime ?s)" by linarith
    qed
    with loop opened show ?thesis by (simp add: sorted_wrt_append)
  qed
qed

lemma monitor_stats_downAt_strict:
  assumes "sorted (map beat_time bs)" and "distinct (map beat_time bs)"
  shows "sorted_wrt (\<lambda>a b. downAt a < downAt b) (monitor_stats m bs e)"
proof -
  let ?s = "forEach_beat m bs (init_state [])"
  have inv: "shape_inv True bs ?s"
    using assms by (simp add: shape_inv_run)
  then have "sorted_wrt (\<lambda>a b. stat_upTime a \<le> downAt b) (downtimeStats ?s)"
    and lt: "\<forall>iv\<in>set (downtimeStats ?s). downAt iv < stat_upTime iv"
    by (simp_all add: shape_inv_def)
  then have loop: "sorted_wrt (\<lambda>a b. downAt a < downAt b) (downtimeStats ?s)"
    by (auto elim!: sorted_wrt_mono_rel [rotated])
  show ?thesis
  proof (cases rule: monitor_stats_cases [where m = m and bs = bs and e = e])
    case closed
    with loop show ?thesis by simp
  next
    case opened
    with inv have up: "\<forall>iv\<in>set (downtimeStats ?s). stat_upTime iv \<le> Date_of (downTime ?s)"
      by (simp add: shape_inv_def)
    have "\<forall>iv\<in>set (downtimeStats ?s). downAt iv < Date_of (downTime ?s)"
    proof
      fix iv assume "iv \<in> set (downtimeStats ?s)"
      with lt up have "downAt iv < stat_upTime iv" and "stat_upTime iv \<le> Date_of (downTime ?s)"
        by simp_all
      then show "downAt iv < Date_of (downTime ?s)" by linarith
    qed
    with loop opened show ?thesis by (simp add: sorted_wrt_append)
  qed
qed

lemma monitor_stats_ends:
  assumes "sorted (map beat_time bs)" and "\<forall>b\<in>set bs. beat_time b \<le> e"
  shows "\<forall>iv\<in>set (monitor_stats m bs e).
           stat_downTime iv \<noteq> None \<and> downAt iv \<in> down_times bs \<and>
           (stat_upTime iv \<in> up_times bs \<or> stat_upTime iv = e) \<and>
           downAt iv \<le> stat_upTime iv"
proof -
  let ?s = "forEach_beat m bs (init_state [])"
  have inv: "shape_inv False bs ?s"
    using assms(1) by (simp add: shape_inv_run)
  show ?thesis
  proof (cases rule: monitor_stats_cases [where m = m and bs = bs and e = e])
    case closed
    with inv show ?thesis by (simp add: shape_inv_def)
  next
    case opened
    with inv have d: "downTime ?s \<noteq> None" "Date_of (downTime ?s) \<in> down_times bs"
      by (simp_all add: shape_inv_def)
    with assms(2) down_times_subset [of bs] have "Date_of (downTime ?s) \<le> e" by auto
    with inv opened d show ?thesis by (simp add: shape_inv_def)
  qed
qed

lemma monitor_stats_cover:
  assumes "sorted (map beat_time bs)" and "\<forall>b\<in>set bs. beat_time b \<le> e"
  shows "\<forall>b\<in>set bs. beat_status b = 0 \<longrightarrow>
           (\<exists>iv\<in>set (monitor_stats m bs e). downAt iv \<le> beat_time b \<and> beat_time b \<le> stat_upTime iv)"
proof -
  let ?s = "forEach_beat m bs (init_state [])"
  have cov: "cover_inv bs ?s" using assms(1) by (rule cover_inv_run)
  show ?thesis
  proof (cases rule: monitor_stats_cases [where m = m and bs = bs and e = e])
    case closed
    with cov show ?thesis by (simp add: cover_inv_def)
  next
    case opened
    show ?thesis
    proof (intro ballI impI)
      fix b assume b: "b \<in> set bs" "beat_status b = 0"
      with cov have "(\<exists>iv\<in>set (downtimeStats ?s). downAt iv \<le> beat_time b \<and> beat_time b \<le> stat_upTime iv) \<or>
          Date_of (downTime ?s) \<le> beat_time b"
        by (auto simp add: cover_inv_def)
      moreover from b assms(2) have "beat_time b \<le> e" by simp
      ultimately show "\<exists>iv\<in>set (monitor_stats m bs e). downAt iv \<le> beat_time b \<and> beat_time b \<le> stat_upTime iv"
        unfolding opened(2) by auto
    qed
  qed
qed

lemma monitor_stats_no_up_inside:
  assumes "sorted (map beat_time bs)"
  shows "\<forall>b\<in>set bs. beat_status b = 1 \<longrightarrow>
           (\<forall>iv\<in>set (monitor_stats m bs e). \<not> (downAt iv < beat_time b \<and> beat_time b < stat_upTime iv))"
proof -
  let ?s = "forEach_beat m bs (init_state [])"
  have cov: "cover_inv bs ?s" using assms(1) by (rule cover_inv_run)
  show ?thesis
  proof (cases rule: monitor_stats_cases [where m = m and bs = bs and e = e])
    case closed
    with cov show ?thesis by (simp add: cover_inv_def)
  next
    case opened
    with cov show ?thesis by (auto simp add: cover_inv_def)
  qed
qed

subsection \<open>The pass as a whole\<close>

lemma foldl_monitor_callback:
  "foldl (\<lambda>arrays monitor. monitor_callback monitor (Q monitor) e arrays) a c =
     \<lparr>payload_downtimeStats =
        payload_downtimeStats a @ concat (map (\<lambda>monitor. monitor_stats monitor (Q monitor) e) c),
      payload_totalDowntime =
        payload_totalDowntime a @
          map (\<lambda>monitor. total_record monitor (formatTime (monitor_seconds monitor (Q monitor) e))) c\<rparr>"
proof (induction c arbitrary: a)
  case Nil
  show ?case by simp
next
  case (Cons m c)
  have "foldl (\<lambda>arrays monitor. monitor_callback monitor (Q monitor) e arrays) a (m # c) =
      foldl (\<lambda>arrays monitor. monitor_callback monitor (Q monitor) e arrays)
        (monitor_callback m (Q m) e a) c"
    by simp
  also note Cons.IH
  finally show ?case by (simp add: monitor_callback_eq)
qed

lemma sendDowntimeStats_run:
  assumes "completion_order ml c"
  shows "sendDowntimeStats ml tbl c st e =
    Some \<lparr>fetches = map (\<lambda>monitor. (monitor_id monitor, st, e)) ml,
          emitted = \<lparr>payload_downtimeStats = concat (map (stats_of tbl st e) c),
                     payload_totalDowntime = map (total_of tbl st e) c\<rparr>\<rparr>"
  using assms
  by (simp add: sendDowntimeStats_def foldl_monitor_callback stats_of_def [abs_def]
      total_of_def [abs_def] seconds_of_def [abs_def])

lemma mset_concat_map:
  "mset (concat (map f c)) = sum_mset (image_mset (\<lambda>x. mset (f x)) (mset c))"
  by (induction c) simp_all

lemma mset_concat_map_cong:
  "mset c = mset ml \<Longrightarrow> mset (concat (map f c)) = mset (concat (map f ml))"
  by (simp add: mset_concat_map)

lemma mset_map_cong:
  "mset c = mset ml \<Longrightarrow> mset (map f c) = mset (map f ml)"
  by simp

lemma stats_of_monitor_id:
  "\<forall>iv\<in>set (stats_of tbl st e m). stat_monitor_id iv = monitor_id m"
  by (simp add: stats_of_def monitor_stats_monitor_id)

lemma filter_stats_other:
  "monitor_id m' \<noteq> monitor_id m \<Longrightarrow>
   filter (\<lambda>iv. stat_monitor_id iv = monitor_id m) (stats_of tbl st e m') = []"
  using stats_of_monitor_id [of tbl st e m'] by (simp add: filter_empty_conv)

lemma filter_stats_own:
  "filter (\<lambda>iv. stat_monitor_id iv = monitor_id m) (stats_of tbl st e m) = stats_of tbl st e m"
  using stats_of_monitor_id [of tbl st e m] by (simp add: filter_id_conv)

lemma filter_concat_stats_absent:
  "monitor_id m \<notin> monitor_id ` set c \<Longrightarrow>
   filter (\<lambda>iv. stat_monitor_id iv = monitor_id m) (concat (map (stats_of tbl st e) c)) = []"
proof (induction c)
  case Nil
  show ?case by simp
next
  case (Cons m' c)
  then have "monitor_id m' \<noteq> monitor_id m" by auto
  with Cons show ?case by (simp add: filter_stats_other)
qed

lemma filter_concat_stats:
  assumes "distinct (map monitor_id c)" and "m \<in> set c"
  shows "filter (\<lambda>iv. stat_monitor_id iv = monitor_id m) (concat (map (stats_of tbl st e) c)) =
    stats_of tbl st e m"
  using assms
proof (induction c)
  case Nil
  then show ?case by simp
next
  case (Cons m' c)
  show ?case
  proof (cases "monitor_id m' = monitor_id m")
    case True
    with Cons.prems have "monitor_id m \<notin> monitor_id ` set c" and "m' = m"
      by (auto simp add: image_iff)
    then show ?thesis
      by (simp add: filter_stats_own filter_concat_stats_absent)
  next
    case False
    with Cons.prems have "m \<in> set c" and "distinct (map monitor_id c)" by auto
    with False Cons.IH show ?thesis by (simp add: filter_stats_other)
  qed
qed

lemma total_of_monitor_id [simp]: "total_monitor_id (total_of tbl st e m) = monitor_id m"
  by (simp add: total_of_def total_record_def)

lemma filter_totals:
  assumes "distinct (map monitor_id c)" and "m \<in> set c"
  shows "filter (\<lambda>t. total_monitor_id t = monitor_id m) (map (total_of tbl st e) c) =
    [total_of tbl st e m]"
  using assms
proof (induction c)
  case Nil
  then show ?case by simp
next
  case (Cons m' c)
  show ?case
  proof (cases "monitor_id m' = monitor_id m")
    case True
    with Cons.prems have absent: "monitor_id m \<notin> monitor_id ` set c" and "m' = m"
      by (auto simp add: image_iff)
    from absent have "\<forall>x\<in>set c. monitor_id x \<noteq> monitor_id m"
      by (metis imageI)
    then have "filter (\<lambda>t. total_monitor_id t = monitor_id m) (map (total_of tbl st e) c) = []"
      by (simp add: filter_empty_conv)
    with \<open>m' = m\<close> show ?thesis by simp
  next
    case False
    with Cons.prems have "m \<in> set c" and "distinct (map monitor_id c)" by auto
    with False Cons.IH show ?thesis by simp
  qed
qed

lemma completion_order_set: "completion_order ml c \<Longrightarrow> set c = set ml"
  by (auto simp add: completion_order_def dest: mset_eq_setD)

lemma completion_order_distinct:
  "completion_order ml c \<Longrightarrow> distinct (map monitor_id ml) \<Longrightarrow> distinct (map monitor_id c)"
proof -
  assume "completion_order ml c" and d: "distinct (map monitor_id ml)"
  then have "mset (map monitor_id c) = mset (map monitor_id ml)"
    by (simp add: completion_order_def)
  with d show ?thesis by (metis mset_eq_imp_distinct_iff)
qed

lemma getAll_heartbeat_sorted:
  "sorted (map beat_time (getAll_heartbeat tbl i st e))"
proof -
  have "sorted (map (\<lambda>h. (beat_time h, has_fraction h)) (getAll_heartbeat tbl i st e))"
    by (simp add: getAll_heartbeat_def)
  then have "sorted_wrt (\<lambda>a b. (beat_time a, has_fraction a) \<le> (beat_time b, has_fraction b))
      (getAll_heartbeat tbl i st e)"
    by (simp add: sorted_map)
  then have "sorted_wrt (\<lambda>a b. beat_time a \<le> beat_time b) (getAll_heartbeat tbl i st e)"
    by (rule sorted_wrt_mono_rel [rotated]) auto
  then show ?thesis by (simp add: sorted_map)
qed

lemma time_le_upper: "time_le h (datetime e) \<Longrightarrow> beat_time h \<le> e"
proof -
  assume le: "time_le h (datetime e)"
  have h: "beat_time h = 1000 * (beat_time h div 1000) + beat_time h mod 1000"
    and e: "e = 1000 * (e div 1000) + e mod 1000"
    by simp_all
  have bounds: "beat_time h mod 1000 < 1000" "0 \<le> e mod 1000" by simp_all
  from le consider "beat_time h div 1000 < e div 1000"
    | "beat_time h div 1000 = e div 1000" "beat_time h mod 1000 = 0"
    by (auto simp add: time_le_def datetime_def has_fraction_def)
  then show ?thesis
  proof cases
    case 1
    with h e bounds show ?thesis by linarith
  next
    case 2
    with h e bounds show ?thesis by linarith
  qed
qed

lemma time_ge_lower: "time_ge h (datetime st) \<Longrightarrow> 1000 * (st div 1000) \<le> beat_time h"
proof -
  assume "time_ge h (datetime st)"
  then have "st div 1000 \<le> beat_time h div 1000" by (simp add: time_ge_def datetime_def)
  moreover have "beat_time h = 1000 * (beat_time h div 1000) + beat_time h mod 1000"
    and "0 \<le> beat_time h mod 1000"
    by simp_all
  ultimately show ?thesis by linarith
qed

lemma getAll_heartbeat_window:
  "b \<in> set (getAll_heartbeat tbl i st e) \<Longrightarrow>
   1000 * (st div 1000) \<le> beat_time b \<and> beat_time b \<le> e"
  by (simp add: getAll_heartbeat_def time_le_upper time_ge_lower)

lemma getAll_heartbeat_set:
  "set (getAll_heartbeat tbl i st e) =
     {b \<in> set tbl. beat_monitor_id b = i \<and> time_ge b (datetime st) \<and> time_le b (datetime e)}"
  by (auto simp add: getAll_heartbeat_def)

lemma getAll_heartbeat_empty_window:
  "datetime e < datetime st \<Longrightarrow> getAll_heartbeat tbl i st e = []"
proof -
  assume "datetime e < datetime st"
  then have "filter (\<lambda>h. beat_monitor_id h = i \<and> time_ge h (datetime st) \<and>
      time_le h (datetime e)) tbl = []"
    by (auto simp add: filter_empty_conv time_ge_def time_le_def)
  then show ?thesis by (simp add: getAll_heartbeat_def)
qed

subsection \<open>Order of the intervals of a monitor\<close>

text \<open>
  C5 (as amended). For observations ascending by time, the starts of the intervals of a
  callback never decrease, and every interval ends no later than the next one starts.
  The starts increase strictly when no two observations have the same time. With equal
  times they need not: a down, an up and a down observation at one instant give two
  intervals with the same start.
\<close>

theorem intervals_in_order:
  assumes "sorted (map beat_time heartbeats)"
  shows "sorted_wrt (\<lambda>a b. downAt a \<le> downAt b) (monitor_stats monitor heartbeats endTime) \<and>
    (\<forall>i. Suc i < length (monitor_stats monitor heartbeats endTime) \<longrightarrow>
       stat_upTime (monitor_stats monitor heartbeats endTime ! i) \<le>
         downAt (monitor_stats monitor heartbeats endTime ! Suc i)) \<and>
    (distinct (map beat_time heartbeats) \<longrightarrow>
       sorted_wrt (\<lambda>a b. downAt a < downAt b) (monitor_stats monitor heartbeats endTime))"
proof (intro conjI allI impI)
  show "sorted_wrt (\<lambda>a b. downAt a \<le> downAt b) (monitor_stats monitor heartbeats endTime)"
    using assms by (rule monitor_stats_downAt_ordered)
next
  fix i assume len: "Suc i < length (monitor_stats monitor heartbeats endTime)"
  have "sorted_wrt (\<lambda>a b. stat_upTime a \<le> downAt b) (monitor_stats monitor heartbeats endTime)"
    using assms by (rule monitor_stats_ordered)
  moreover have "i < Suc i" by simp
  ultimately show "stat_upTime (monitor_stats monitor heartbeats endTime ! i) \<le>
      downAt (monitor_stats monitor heartbeats endTime ! Suc i)"
    using len by (rule sorted_wrt_nth_less)
next
  assume "distinct (map beat_time heartbeats)"
  with assms show "sorted_wrt (\<lambda>a b. downAt a < downAt b) (monitor_stats monitor heartbeats endTime)"
    by (rule monitor_stats_downAt_strict)
qed

lemma stats_example_distinct:
  "monitor_stats (mon 1) [beat 1 5 0, beat 1 7 1, beat 1 8 0] 10 =
     [stat_record (mon 1) (Some 5) 7, stat_record (mon 1) (Some 8) 10]"
  by (simp add: monitor_stats_def final_state_def forEach_beat_def beat_step_def close_open_def
      init_state_def beat_def stat_record_def Let_def)

theorem intervals_in_order_witness:
  "sorted (map beat_time [beat 1 5 0, beat 1 7 1, beat 1 8 0]) \<and>
   distinct (map beat_time [beat 1 5 0, beat 1 7 1, beat 1 8 0]) \<and>
   Suc 0 < length (monitor_stats (mon 1) [beat 1 5 0, beat 1 7 1, beat 1 8 0] 10) \<and>
   map downAt (monitor_stats (mon 1) [beat 1 5 0, beat 1 7 1, beat 1 8 0] 10) = [5, 8] \<and>
   map stat_upTime (monitor_stats (mon 1) [beat 1 5 0, beat 1 7 1, beat 1 8 0] 10) = [7, 10] \<and>
   sorted_wrt (\<lambda>a b. downAt a < downAt b)
     (monitor_stats (mon 1) [beat 1 5 0, beat 1 7 1, beat 1 8 0] 10) \<and>
   stat_upTime (monitor_stats (mon 1) [beat 1 5 0, beat 1 7 1, beat 1 8 0] 10 ! 0) \<le>
     downAt (monitor_stats (mon 1) [beat 1 5 0, beat 1 7 1, beat 1 8 0] 10 ! Suc 0)"
proof -
  have hyp: "sorted (map beat_time [beat 1 5 0, beat 1 7 1, beat 1 8 0])"
    "distinct (map beat_time [beat 1 5 0, beat 1 7 1, beat 1 8 0])"
    by (simp_all add: beat_def)
  have len: "Suc 0 < length (monitor_stats (mon 1) [beat 1 5 0, beat 1 7 1, beat 1 8 0] 10)"
    by (simp add: stats_example_distinct)
  have ends: "map downAt (monitor_stats (mon 1) [beat 1 5 0, beat 1 7 1, beat 1 8 0] 10) = [5, 8]"
    "map stat_upTime (monitor_stats (mon 1) [beat 1 5 0, beat 1 7 1, beat 1 8 0] 10) = [7, 10]"
    by (simp_all add: stats_example_distinct)
  show ?thesis
    using intervals_in_order [OF hyp(1), of "mon 1" 10] hyp len ends by blast
qed

theorem equal_times_equal_starts:
  "sorted (map beat_time [beat 1 5 0, beat 1 5 1, beat 1 5 0]) \<and>
   0 \<le> beat_time (beat 1 5 0) \<and> beat_time (beat 1 5 0) \<le> 10 \<and>
   0 \<le> beat_time (beat 1 5 1) \<and> beat_time (beat 1 5 1) \<le> 10 \<and>
   map downAt (monitor_stats (mon 1) [beat 1 5 0, beat 1 5 1, beat 1 5 0] 10) = [5, 5] \<and>
   \<not> downAt (monitor_stats (mon 1) [beat 1 5 0, beat 1 5 1, beat 1 5 0] 10 ! 0) <
       downAt (monitor_stats (mon 1) [beat 1 5 0, beat 1 5 1, beat 1 5 0] 10 ! 1)"
  by (simp add: monitor_stats_def final_state_def forEach_beat_def beat_step_def close_open_def
      init_state_def beat_def downAt_def Let_def)

subsection \<open>Whole seconds add up exactly\<close>

lemma whole_seconds_exact:
  assumes "sorted_wrt (\<lambda>a b. stat_upTime a \<le> downAt b) ivs"
    and "\<forall>iv\<in>set ivs. lo \<le> downAt iv \<and> downAt iv \<le> stat_upTime iv \<and> stat_upTime iv \<le> hi"
    and "\<forall>iv\<in>set ivs. downAt iv mod 1000 = 0 \<and> stat_upTime iv mod 1000 = 0"
    and "hi - lo < 2 ^ 53"
  shows "\<exists>K. 0 \<le> K \<and> js_sum (map js_seconds ivs) = of_int K \<and>
    sum_list (map stat_seconds ivs) = of_int K \<and>
    (\<forall>h. lo \<le> h \<and> (\<forall>iv\<in>set ivs. stat_upTime iv \<le> h) \<longrightarrow> 1000 * K \<le> h - lo)"
  using assms(1-3)
proof (induction ivs rule: rev_induct)
  case Nil
  have "(0::int) \<le> 0 \<and> js_sum (map js_seconds []) = of_int 0 \<and>
    sum_list (map stat_seconds []) = of_int 0 \<and>
    (\<forall>h. lo \<le> h \<and> (\<forall>iv\<in>set []. stat_upTime iv \<le> h) \<longrightarrow> 1000 * 0 \<le> h - lo)"
    by (simp add: js_sum_def)
  then show ?case by blast
next
  case (snoc x ivs)
  from snoc.prems(1) have sorted: "sorted_wrt (\<lambda>a b. stat_upTime a \<le> downAt b) ivs"
    and before: "\<forall>iv\<in>set ivs. stat_upTime iv \<le> downAt x"
    by (simp_all add: sorted_wrt_append)
  from snoc.prems(2) have x: "lo \<le> downAt x" "downAt x \<le> stat_upTime x" "stat_upTime x \<le> hi"
    and rest: "\<forall>iv\<in>set ivs. lo \<le> downAt iv \<and> downAt iv \<le> stat_upTime iv \<and> stat_upTime iv \<le> hi"
    by simp_all
  from snoc.prems(3) have xm: "downAt x mod 1000 = 0" "stat_upTime x mod 1000 = 0"
    and restm: "\<forall>iv\<in>set ivs. downAt iv mod 1000 = 0 \<and> stat_upTime iv mod 1000 = 0"
    by simp_all
  from snoc.IH [OF sorted rest restm] obtain K where K: "0 \<le> K"
    "js_sum (map js_seconds ivs) = of_int K" "sum_list (map stat_seconds ivs) = of_int K"
    "\<forall>h. lo \<le> h \<and> (\<forall>iv\<in>set ivs. stat_upTime iv \<le> h) \<longrightarrow> 1000 * K \<le> h - lo"
    by blast
  from K(4) x(1) before have Kd: "1000 * K \<le> downAt x - lo" by blast
  define k where "k = (stat_upTime x - downAt x) div 1000"
  have "(stat_upTime x - downAt x) mod 1000 = 0"
    using xm by (simp add: mod_diff_eq [symmetric])
  then have k: "stat_upTime x - downAt x = 1000 * k"
    unfolding k_def by (metis mult_div_mod_eq add.right_neutral)
  have k0: "0 \<le> k" using k x(2) by linarith
  have dist: "1000 * (K + k) = 1000 * K + 1000 * k" by (simp add: distrib_left)
  have kb: "1000 * (K + k) \<le> stat_upTime x - lo" using Kd k dist by linarith
  have small: "stat_upTime x - lo < 2 ^ 53" using x(3) assms(4) by linarith
  have b1: "\<bar>stat_upTime x - downAt x\<bar> < 2 ^ 53" using x small by linarith
  have b2: "\<bar>k\<bar> < 2 ^ 53" using k k0 b1 by linarith
  have b3: "\<bar>K + k\<bar> < 2 ^ 53" using K(1) k0 kb small dist by linarith
  have "js_sub (of_int (stat_upTime x)) (of_int (downAt x)) = of_int (1000 * k)"
    using b1 by (simp only: js_sub_of_int k)
  then have js: "js_seconds x = of_int k"
    using b2 by (simp only: js_seconds_def js_div_1000_of_int)
  have ex: "stat_seconds x = of_int k"
    by (simp add: stat_seconds_def k)
  have "0 \<le> K + k" using K(1) k0 by simp
  moreover have "js_sum (map js_seconds (ivs @ [x])) = of_int (K + k)"
    using b3 by (simp add: js_sum_snoc K(2) js js_add_of_int)
  moreover have "sum_list (map stat_seconds (ivs @ [x])) = of_int (K + k)"
    by (simp add: K(3) ex)
  moreover have "\<forall>h. lo \<le> h \<and> (\<forall>iv\<in>set (ivs @ [x]). stat_upTime iv \<le> h) \<longrightarrow>
      1000 * (K + k) \<le> h - lo"
    using kb by auto
  ultimately show ?case by blast
qed


subsection \<open>Evaluation of the examples\<close>

lemma formatTime_900: "formatTime 900 = ''00:15:00''"
  by code_simp

lemma formatTime_600: "formatTime 600 = ''00:10:00''"
  by code_simp

lemma getAll_example_1:
  "getAll_heartbeat [beat 1 600000 0, beat 1 1500000 1, beat 2 3000000 0] 1 0 3600000 =
     [beat 1 600000 0, beat 1 1500000 1]"
  by (simp add: getAll_heartbeat_def time_ge_def time_le_def datetime_def has_fraction_def beat_def)

lemma getAll_example_2:
  "getAll_heartbeat [beat 1 600000 0, beat 1 1500000 1, beat 2 3000000 0] 2 0 3600000 =
     [beat 2 3000000 0]"
  by (simp add: getAll_heartbeat_def time_ge_def time_le_def datetime_def has_fraction_def beat_def)

lemma stats_of_example_1:
  "stats_of [beat 1 600000 0, beat 1 1500000 1, beat 2 3000000 0] 0 3600000 (mon 1) =
     [stat_record (mon 1) (Some 600000) 1500000]"
proof -
  have "monitor_id (mon 1) = 1" by (simp add: mon_def)
  then show ?thesis
    by (simp add: stats_of_def getAll_example_1)
       (simp add: monitor_stats_def final_state_def forEach_beat_def beat_step_def close_open_def
         init_state_def beat_def stat_record_def Let_def)
qed

lemma stats_of_example_2:
  "stats_of [beat 1 600000 0, beat 1 1500000 1, beat 2 3000000 0] 0 3600000 (mon 2) =
     [stat_record (mon 2) (Some 3000000) 3600000]"
proof -
  have "monitor_id (mon 2) = 2" by (simp add: mon_def)
  then show ?thesis
    by (simp add: stats_of_def getAll_example_2)
       (simp add: monitor_stats_def final_state_def forEach_beat_def beat_step_def close_open_def
         init_state_def beat_def stat_record_def Let_def)
qed

lemma seconds_of_sum:
  "seconds_of tbl st e m = js_sum (map js_seconds (stats_of tbl st e m))"
  by (simp add: seconds_of_def stats_of_def monitor_seconds_sum)

lemma total_of_example_1:
  "total_of [beat 1 600000 0, beat 1 1500000 1, beat 2 3000000 0] 0 3600000 (mon 1) =
     total_record (mon 1) ''00:15:00''"
  by (simp add: total_of_def seconds_of_sum stats_of_example_1 js_sum_def js_add_def js_sub_def
      js_div_def round_double_numeral formatTime_900)

lemma total_of_example_2:
  "total_of [beat 1 600000 0, beat 1 1500000 1, beat 2 3000000 0] 0 3600000 (mon 2) =
     total_record (mon 2) ''00:10:00''"
  by (simp add: total_of_def seconds_of_sum stats_of_example_2 js_sum_def js_add_def js_sub_def
      js_div_def round_double_numeral formatTime_600)

subsection \<open>Order of the monitors in the payload\<close>

text \<open>
  C3 (as amended). A pass issues its queries in the order of the list of monitors, and its
  payload lists the monitors in the order in which the queries answer: the array of
  intervals is the concatenation, in that order, of the intervals of each monitor, and
  the array of totals has one record for each monitor in that order. The intervals of a
  monitor are in order of time: their starts never decrease and each ends no later than
  the next one starts. Whatever the order of the answers, the two arrays hold the same
  records as when the queries answer in the order of the list, as multisets.
\<close>

theorem payload_in_completion_order:
  assumes "completion_order monitorList completion"
  shows
    "sendDowntimeStats monitorList heartbeatTable completion startTime endTime =
       Some \<lparr>fetches = map (\<lambda>monitor. (monitor_id monitor, startTime, endTime)) monitorList,
             emitted =
               \<lparr>payload_downtimeStats =
                  concat (map (stats_of heartbeatTable startTime endTime) completion),
                payload_totalDowntime =
                  map (total_of heartbeatTable startTime endTime) completion\<rparr>\<rparr> \<and>
     (\<forall>monitor.
        sorted_wrt (\<lambda>a b. downAt a \<le> downAt b) (stats_of heartbeatTable startTime endTime monitor) \<and>
        sorted_wrt (\<lambda>a b. stat_upTime a \<le> downAt b)
          (stats_of heartbeatTable startTime endTime monitor)) \<and>
     mset (concat (map (stats_of heartbeatTable startTime endTime) completion)) =
       mset (concat (map (stats_of heartbeatTable startTime endTime) monitorList)) \<and>
     mset (map (total_of heartbeatTable startTime endTime) completion) =
       mset (map (total_of heartbeatTable startTime endTime) monitorList)"
proof -
  from assms have eq: "mset completion = mset monitorList"
    by (simp add: completion_order_def)
  have run: "sendDowntimeStats monitorList heartbeatTable completion startTime endTime =
       Some \<lparr>fetches = map (\<lambda>monitor. (monitor_id monitor, startTime, endTime)) monitorList,
             emitted =
               \<lparr>payload_downtimeStats =
                  concat (map (stats_of heartbeatTable startTime endTime) completion),
                payload_totalDowntime =
                  map (total_of heartbeatTable startTime endTime) completion\<rparr>\<rparr>"
    using assms by (rule sendDowntimeStats_run)
  have chrono: "\<forall>monitor.
        sorted_wrt (\<lambda>a b. downAt a \<le> downAt b) (stats_of heartbeatTable startTime endTime monitor) \<and>
        sorted_wrt (\<lambda>a b. stat_upTime a \<le> downAt b)
          (stats_of heartbeatTable startTime endTime monitor)"
    by (simp add: stats_of_def getAll_heartbeat_sorted monitor_stats_downAt_ordered
        monitor_stats_ordered)
  have m1: "mset (concat (map (stats_of heartbeatTable startTime endTime) completion)) =
      mset (concat (map (stats_of heartbeatTable startTime endTime) monitorList))"
    using eq by (rule mset_concat_map_cong)
  have m2: "mset (map (total_of heartbeatTable startTime endTime) completion) =
      mset (map (total_of heartbeatTable startTime endTime) monitorList)"
    using eq by (rule mset_map_cong)
  from run chrono m1 m2 show ?thesis by blast
qed

theorem payload_in_completion_order_witness:
  "completion_order [mon 1, mon 2] [mon 2, mon 1] \<and>
   sendDowntimeStats [mon 1, mon 2] [beat 1 600000 0, beat 1 1500000 1, beat 2 3000000 0]
       [mon 2, mon 1] 0 3600000 =
     Some \<lparr>fetches = map (\<lambda>monitor. (monitor_id monitor, 0, 3600000)) [mon 1, mon 2],
           emitted =
             \<lparr>payload_downtimeStats =
                concat (map (stats_of [beat 1 600000 0, beat 1 1500000 1, beat 2 3000000 0] 0 3600000)
                  [mon 2, mon 1]),
              payload_totalDowntime =
                map (total_of [beat 1 600000 0, beat 1 1500000 1, beat 2 3000000 0] 0 3600000)
                  [mon 2, mon 1]\<rparr>\<rparr> \<and>
   mset (map (total_of [beat 1 600000 0, beat 1 1500000 1, beat 2 3000000 0] 0 3600000) [mon 2, mon 1]) =
     mset (map (total_of [beat 1 600000 0, beat 1 1500000 1, beat 2 3000000 0] 0 3600000) [mon 1, mon 2])"
proof -
  have h: "completion_order [mon 1, mon 2] [mon 2, mon 1]"
    by (simp add: completion_order_def)
  show ?thesis
    using payload_in_completion_order [OF h,
        of "[beat 1 600000 0, beat 1 1500000 1, beat 2 3000000 0]" 0 3600000] h
    by blast
qed

theorem completion_order_changes_payload:
  "sendDowntimeStats [mon 1, mon 2] [beat 1 600000 0, beat 1 1500000 1, beat 2 3000000 0]
       [mon 1, mon 2] 0 3600000 =
     Some \<lparr>fetches = [(1, 0, 3600000), (2, 0, 3600000)],
           emitted =
             \<lparr>payload_downtimeStats =
                [stat_record (mon 1) (Some 600000) 1500000,
                 stat_record (mon 2) (Some 3000000) 3600000],
              payload_totalDowntime =
                [total_record (mon 1) ''00:15:00'', total_record (mon 2) ''00:10:00'']\<rparr>\<rparr> \<and>
   sendDowntimeStats [mon 1, mon 2] [beat 1 600000 0, beat 1 1500000 1, beat 2 3000000 0]
       [mon 2, mon 1] 0 3600000 =
     Some \<lparr>fetches = [(1, 0, 3600000), (2, 0, 3600000)],
           emitted =
             \<lparr>payload_downtimeStats =
                [stat_record (mon 2) (Some 3000000) 3600000,
                 stat_record (mon 1) (Some 600000) 1500000],
              payload_totalDowntime =
                [total_record (mon 2) ''00:10:00'', total_record (mon 1) ''00:15:00'']\<rparr>\<rparr> \<and>
   stat_monitor_id (stat_record (mon 1) (Some 600000) 1500000) = 1 \<and>
   stat_monitor_id (stat_record (mon 2) (Some 3000000) 3600000) = 2 \<and>
   total_monitor_id (total_record (mon 1) ''00:15:00'') = 1 \<and>
   total_monitor_id (total_record (mon 2) ''00:10:00'') = 2"
proof -
  have ids: "monitor_id (mon 1) = 1" "monitor_id (mon 2) = 2"
    by (simp_all add: mon_def)
  have o1: "completion_order [mon 1, mon 2] [mon 1, mon 2]"
    and o2: "completion_order [mon 1, mon 2] [mon 2, mon 1]"
    by (simp_all add: completion_order_def)
  have "sendDowntimeStats [mon 1, mon 2] [beat 1 600000 0, beat 1 1500000 1, beat 2 3000000 0]
       [mon 1, mon 2] 0 3600000 =
     Some \<lparr>fetches = [(1, 0, 3600000), (2, 0, 3600000)],
           emitted =
             \<lparr>payload_downtimeStats =
                [stat_record (mon 1) (Some 600000) 1500000,
                 stat_record (mon 2) (Some 3000000) 3600000],
              payload_totalDowntime =
                [total_record (mon 1) ''00:15:00'', total_record (mon 2) ''00:10:00'']\<rparr>\<rparr>"
    by (simp add: sendDowntimeStats_run [OF o1] ids stats_of_example_1 stats_of_example_2
        total_of_example_1 total_of_example_2)
  moreover have "sendDowntimeStats [mon 1, mon 2] [beat 1 600000 0, beat 1 1500000 1, beat 2 3000000 0]
       [mon 2, mon 1] 0 3600000 =
     Some \<lparr>fetches = [(1, 0, 3600000), (2, 0, 3600000)],
           emitted =
             \<lparr>payload_downtimeStats =
                [stat_record (mon 2) (Some 3000000) 3600000,
                 stat_record (mon 1) (Some 600000) 1500000],
              payload_totalDowntime =
                [total_record (mon 2) ''00:10:00'', total_record (mon 1) ''00:15:00'']\<rparr>\<rparr>"
    by (simp add: sendDowntimeStats_run [OF o2] ids stats_of_example_1 stats_of_example_2
        total_of_example_1 total_of_example_2)
  moreover have "stat_monitor_id (stat_record (mon 1) (Some 600000) 1500000) = 1"
    "stat_monitor_id (stat_record (mon 2) (Some 3000000) 3600000) = 2"
    "total_monitor_id (total_record (mon 1) ''00:15:00'') = 1"
    "total_monitor_id (total_record (mon 2) ''00:10:00'') = 2"
    by (simp_all add: ids total_record_def)
  ultimately show ?thesis by blast
qed

subsection \<open>A window that ends before it starts\<close>

lemma monitor_stats_Nil: "monitor_stats m [] e = []"
  by (simp add: monitor_stats_def final_state_def forEach_beat_Nil close_open_def init_state_def)

lemma monitor_seconds_Nil: "monitor_seconds m [] e = 0"
  by (simp add: monitor_seconds_def final_state_def forEach_beat_Nil close_open_def init_state_def)

lemma inverted_window_rows:
  assumes "e < st" and "b \<in> set (getAll_heartbeat tbl i st e)"
  shows "datetime st = datetime e \<and> beat_time b = 1000 * datetime e \<and> \<not> has_fraction b"
proof -
  from assms(2) have ge: "st div 1000 \<le> beat_time b div 1000"
    and le: "beat_time b div 1000 < e div 1000 \<or>
      (beat_time b div 1000 = e div 1000 \<and> \<not> has_fraction b)"
    by (simp_all add: getAll_heartbeat_set time_ge_def time_le_def datetime_def)
  from assms(1) have "e div 1000 \<le> st div 1000" by (simp add: zdiv_mono1)
  with ge le have eq: "st div 1000 = e div 1000" "beat_time b div 1000 = e div 1000"
    and nf: "\<not> has_fraction b"
    by auto
  from nf have "beat_time b mod 1000 = 0" by (simp add: has_fraction_def)
  moreover have "beat_time b = 1000 * (beat_time b div 1000) + beat_time b mod 1000" by simp
  ultimately have "beat_time b = 1000 * (beat_time b div 1000)" by linarith
  with eq nf show ?thesis by (simp add: datetime_def)
qed

text \<open>
  C2 (as amended). A pass with \<open>endTime < startTime\<close> is not rejected: it issues one query
  for each monitor with the two times as given, neither swapped nor clamped, and emits a
  payload with one total record for each monitor. A query can return only rows whose time
  is, without a fraction, the whole second in which both bounds lie. When \<open>startTime\<close>
  lies in a later second than \<open>endTime\<close>, every query returns no row, the payload has no
  interval and every total is 00:00:00.
\<close>

theorem inverted_window_is_not_rejected:
  assumes "endTime < startTime" and "completion_order monitorList completion"
  shows
    "sendDowntimeStats monitorList heartbeatTable completion startTime endTime =
       Some \<lparr>fetches = map (\<lambda>monitor. (monitor_id monitor, startTime, endTime)) monitorList,
             emitted =
               \<lparr>payload_downtimeStats =
                  concat (map (stats_of heartbeatTable startTime endTime) completion),
                payload_totalDowntime =
                  map (total_of heartbeatTable startTime endTime) completion\<rparr>\<rparr> \<and>
     (\<forall>monitor. \<forall>b\<in>set (getAll_heartbeat heartbeatTable (monitor_id monitor) startTime endTime).
        datetime startTime = datetime endTime \<and> beat_time b = 1000 * datetime endTime \<and>
        \<not> has_fraction b) \<and>
     (datetime endTime < datetime startTime \<longrightarrow>
        (\<forall>monitor. getAll_heartbeat heartbeatTable (monitor_id monitor) startTime endTime = []) \<and>
        concat (map (stats_of heartbeatTable startTime endTime) completion) = [] \<and>
        map (total_of heartbeatTable startTime endTime) completion =
          map (\<lambda>monitor. total_record monitor ''00:00:00'') completion)"
proof (intro conjI allI ballI impI)
  show "sendDowntimeStats monitorList heartbeatTable completion startTime endTime =
       Some \<lparr>fetches = map (\<lambda>monitor. (monitor_id monitor, startTime, endTime)) monitorList,
             emitted =
               \<lparr>payload_downtimeStats =
                  concat (map (stats_of heartbeatTable startTime endTime) completion),
                payload_totalDowntime =
                  map (total_of heartbeatTable startTime endTime) completion\<rparr>\<rparr>"
    using assms(2) by (rule sendDowntimeStats_run)
next
  fix monitor b
  assume b: "b \<in> set (getAll_heartbeat heartbeatTable (monitor_id monitor) startTime endTime)"
  from inverted_window_rows [OF assms(1) b]
  show "datetime startTime = datetime endTime" and "beat_time b = 1000 * datetime endTime"
    and "\<not> has_fraction b"
    by simp_all
next
  assume later: "datetime endTime < datetime startTime"
  then have empty: "\<And>i. getAll_heartbeat heartbeatTable i startTime endTime = []"
    by (rule getAll_heartbeat_empty_window)
  fix monitor
  show "getAll_heartbeat heartbeatTable (monitor_id monitor) startTime endTime = []"
    by (rule empty)
  show "concat (map (stats_of heartbeatTable startTime endTime) completion) = []"
    by (simp add: stats_of_def empty monitor_stats_Nil)
  show "map (total_of heartbeatTable startTime endTime) completion =
          map (\<lambda>monitor. total_record monitor ''00:00:00'') completion"
    by (simp add: total_of_def seconds_of_def empty monitor_seconds_Nil formatTime_zero)
qed

theorem inverted_window_is_not_rejected_witness:
  "(0::int) < 3600000 \<and> completion_order [mon 1, mon 2] [mon 2, mon 1] \<and>
   datetime 0 < datetime 3600000 \<and>
   sendDowntimeStats [mon 1, mon 2] [beat 1 600000 0, beat 1 1500000 1] [mon 2, mon 1] 3600000 0 =
     Some \<lparr>fetches = [(1, 3600000, 0), (2, 3600000, 0)],
           emitted =
             \<lparr>payload_downtimeStats = [],
              payload_totalDowntime =
                [total_record (mon 2) ''00:00:00'', total_record (mon 1) ''00:00:00'']\<rparr>\<rparr>"
proof -
  have h1: "(0::int) < 3600000" by simp
  have h2: "completion_order [mon 1, mon 2] [mon 2, mon 1]"
    by (simp add: completion_order_def)
  have h3: "datetime 0 < datetime 3600000" by (simp add: datetime_def)
  have ids: "monitor_id (mon 1) = 1" "monitor_id (mon 2) = 2"
    by (simp_all add: mon_def)
  note T = inverted_window_is_not_rejected [OF h1 h2, of "[beat 1 600000 0, beat 1 1500000 1]"]
  from T h3 have
    "concat (map (stats_of [beat 1 600000 0, beat 1 1500000 1] 3600000 0) [mon 2, mon 1]) = []"
    "map (total_of [beat 1 600000 0, beat 1 1500000 1] 3600000 0) [mon 2, mon 1] =
       map (\<lambda>monitor. total_record monitor ''00:00:00'') [mon 2, mon 1]"
    by blast+
  with T [THEN conjunct1] have
    "sendDowntimeStats [mon 1, mon 2] [beat 1 600000 0, beat 1 1500000 1] [mon 2, mon 1] 3600000 0 =
     Some \<lparr>fetches = [(1, 3600000, 0), (2, 3600000, 0)],
           emitted =
             \<lparr>payload_downtimeStats = [],
              payload_totalDowntime =
                [total_record (mon 2) ''00:00:00'', total_record (mon 1) ''00:00:00'']\<rparr>\<rparr>"
    by (simp add: ids)
  with h1 h2 h3 show ?thesis by blast
qed

theorem inverted_window_is_fetched_and_emitted:
  "(0::int) < 3600000 \<and>
   sendDowntimeStats [mon 1] [beat 1 600000 0, beat 1 1500000 1] [mon 1] 3600000 0 =
     Some \<lparr>fetches = [(1, 3600000, 0)],
           emitted =
             \<lparr>payload_downtimeStats = [],
              payload_totalDowntime =
                [\<lparr>total_monitor_id = 1, total_monitor_name = ''m'',
                  total_monitor_url = ''http://m'', total_downTime = ''00:00:00''\<rparr>]\<rparr>\<rparr>"
proof -
  have o: "completion_order [mon 1] [mon 1]" by (simp add: completion_order_def)
  have "datetime 0 < datetime 3600000" by (simp add: datetime_def)
  then have empty: "\<And>i. getAll_heartbeat [beat 1 600000 0, beat 1 1500000 1] i 3600000 0 = []"
    by (rule getAll_heartbeat_empty_window)
  have "sendDowntimeStats [mon 1] [beat 1 600000 0, beat 1 1500000 1] [mon 1] 3600000 0 =
     Some \<lparr>fetches = [(monitor_id (mon 1), 3600000, 0)],
           emitted =
             \<lparr>payload_downtimeStats = [],
              payload_totalDowntime = [total_record (mon 1) ''00:00:00'']\<rparr>\<rparr>"
    by (simp add: sendDowntimeStats_run [OF o] stats_of_def total_of_def seconds_of_def empty
        monitor_stats_Nil monitor_seconds_Nil formatTime_zero)
  then show ?thesis
    by (simp add: total_record_def mon_def)
qed

text \<open>
  Both bounds in one second: the row of that second without a fraction is returned, and
  its outage is closed at \<open>endTime\<close>.
\<close>

lemma inverted_window_same_second:
  "(5100::int) < 5900 \<and>
   getAll_heartbeat [beat_whole 1 5000 0] 1 5900 5100 = [beat_whole 1 5000 0] \<and>
   stats_of [beat_whole 1 5000 0] 5900 5100 (mon 1) = [stat_record (mon 1) (Some 5000) 5100]"
proof -
  have q: "getAll_heartbeat [beat_whole 1 5000 0] 1 5900 5100 = [beat_whole 1 5000 0]"
    by (simp add: getAll_heartbeat_def time_ge_def time_le_def datetime_def has_fraction_def
        beat_whole_def)
  have "monitor_id (mon 1) = 1" by (simp add: mon_def)
  then have "stats_of [beat_whole 1 5000 0] 5900 5100 (mon 1) = [stat_record (mon 1) (Some 5000) 5100]"
    by (simp add: stats_of_def q)
       (simp add: monitor_stats_def final_state_def forEach_beat_def beat_step_def close_open_def
         init_state_def beat_whole_def stat_record_def Let_def)
  with q show ?thesis by simp
qed

subsection \<open>The intervals and the total of a monitor\<close>

text \<open>
  C1 (as amended). In a pass over monitors with distinct ids, for every monitor and every
  window: the intervals of the payload that carry the monitor's id are the ones its
  callback pushed, and the payload has exactly one total record with that id. The record
  is formatted from \<open>totalDowntime\<close>, which is the sum of the lengths of those intervals
  as the code adds them: each length and each partial sum rounded to a double. When
  \<open>endTime\<close> and the times of the observations are whole seconds and the window is
  shorter than \<open>2\<^sup>5\<^sup>3\<close> milliseconds, this is the exact sum of the lengths. The
  intervals are in order of time and do not overlap; each starts no earlier than the
  second of \<open>startTime\<close>, ends no later than \<open>endTime\<close> and does not end before it starts;
  every down observation of the query lies in one of them, and no up observation lies
  strictly inside one.
\<close>

theorem intervals_and_total:
  assumes "completion_order monitorList completion"
    and "distinct (map monitor_id monitorList)"
    and "monitor \<in> set monitorList"
  shows
    "sendDowntimeStats monitorList heartbeatTable completion startTime endTime =
       Some \<lparr>fetches = map (\<lambda>monitor. (monitor_id monitor, startTime, endTime)) monitorList,
             emitted =
               \<lparr>payload_downtimeStats =
                  concat (map (stats_of heartbeatTable startTime endTime) completion),
                payload_totalDowntime =
                  map (total_of heartbeatTable startTime endTime) completion\<rparr>\<rparr> \<and>
     filter (\<lambda>iv. stat_monitor_id iv = monitor_id monitor)
       (concat (map (stats_of heartbeatTable startTime endTime) completion)) =
       stats_of heartbeatTable startTime endTime monitor \<and>
     filter (\<lambda>t. total_monitor_id t = monitor_id monitor)
       (map (total_of heartbeatTable startTime endTime) completion) =
       [total_record monitor
          (formatTime (js_sum (map js_seconds (stats_of heartbeatTable startTime endTime monitor))))] \<and>
     (endTime mod 1000 = 0 \<and>
      (\<forall>b\<in>set (getAll_heartbeat heartbeatTable (monitor_id monitor) startTime endTime).
         beat_time b mod 1000 = 0) \<and>
      endTime - 1000 * datetime startTime < 2 ^ 53 \<longrightarrow>
        js_sum (map js_seconds (stats_of heartbeatTable startTime endTime monitor)) =
          sum_list (map stat_seconds (stats_of heartbeatTable startTime endTime monitor))) \<and>
     sorted_wrt (\<lambda>a b. stat_upTime a \<le> downAt b) (stats_of heartbeatTable startTime endTime monitor) \<and>
     (\<forall>iv\<in>set (stats_of heartbeatTable startTime endTime monitor).
        1000 * datetime startTime \<le> downAt iv \<and> downAt iv \<le> stat_upTime iv \<and>
        stat_upTime iv \<le> endTime) \<and>
     (\<forall>b\<in>set (getAll_heartbeat heartbeatTable (monitor_id monitor) startTime endTime).
        beat_status b = 0 \<longrightarrow>
        (\<exists>iv\<in>set (stats_of heartbeatTable startTime endTime monitor).
           downAt iv \<le> beat_time b \<and> beat_time b \<le> stat_upTime iv)) \<and>
     (\<forall>b\<in>set (getAll_heartbeat heartbeatTable (monitor_id monitor) startTime endTime).
        beat_status b = 1 \<longrightarrow>
        (\<forall>iv\<in>set (stats_of heartbeatTable startTime endTime monitor).
           \<not> (downAt iv < beat_time b \<and> beat_time b < stat_upTime iv)))"
proof -
  let ?bs = "getAll_heartbeat heartbeatTable (monitor_id monitor) startTime endTime"
  let ?ivs = "stats_of heartbeatTable startTime endTime monitor"
  let ?lo = "1000 * datetime startTime"
  have ivs: "?ivs = monitor_stats monitor ?bs endTime" by (simp add: stats_of_def)
  have sorted: "sorted (map beat_time ?bs)" by (rule getAll_heartbeat_sorted)
  have window: "\<forall>b\<in>set ?bs. ?lo \<le> beat_time b \<and> beat_time b \<le> endTime"
    using getAll_heartbeat_window [of _ heartbeatTable "monitor_id monitor" startTime endTime]
    by (simp add: datetime_def)
  then have upper: "\<forall>b\<in>set ?bs. beat_time b \<le> endTime" by simp
  have dist: "distinct (map monitor_id completion)"
    using assms(1,2) by (rule completion_order_distinct)
  have mem: "monitor \<in> set completion"
    using assms(1,3) by (simp add: completion_order_set)
  have c0: "sendDowntimeStats monitorList heartbeatTable completion startTime endTime =
       Some \<lparr>fetches = map (\<lambda>monitor. (monitor_id monitor, startTime, endTime)) monitorList,
             emitted =
               \<lparr>payload_downtimeStats =
                  concat (map (stats_of heartbeatTable startTime endTime) completion),
                payload_totalDowntime =
                  map (total_of heartbeatTable startTime endTime) completion\<rparr>\<rparr>"
    using assms(1) by (rule sendDowntimeStats_run)
  have c1: "filter (\<lambda>iv. stat_monitor_id iv = monitor_id monitor)
       (concat (map (stats_of heartbeatTable startTime endTime) completion)) = ?ivs"
    using dist mem by (rule filter_concat_stats)
  have c3: "filter (\<lambda>t. total_monitor_id t = monitor_id monitor)
       (map (total_of heartbeatTable startTime endTime) completion) =
       [total_record monitor (formatTime (js_sum (map js_seconds ?ivs)))]"
    using filter_totals [OF dist mem] by (simp add: total_of_def seconds_of_sum)
  have c4: "sorted_wrt (\<lambda>a b. stat_upTime a \<le> downAt b) ?ivs"
    unfolding ivs using sorted by (rule monitor_stats_ordered)
  have ends: "\<forall>iv\<in>set ?ivs. downAt iv \<in> down_times ?bs \<and>
      (stat_upTime iv \<in> up_times ?bs \<or> stat_upTime iv = endTime) \<and> downAt iv \<le> stat_upTime iv"
    using monitor_stats_ends [OF sorted upper, of monitor] by (simp add: ivs)
  have c5: "\<forall>iv\<in>set ?ivs. ?lo \<le> downAt iv \<and> downAt iv \<le> stat_upTime iv \<and> stat_upTime iv \<le> endTime"
  proof
    fix iv assume "iv \<in> set ?ivs"
    with ends have d: "downAt iv \<in> down_times ?bs"
      and u: "stat_upTime iv \<in> up_times ?bs \<or> stat_upTime iv = endTime"
      and le: "downAt iv \<le> stat_upTime iv"
      by simp_all
    from d window down_times_subset [of ?bs] have "?lo \<le> downAt iv" by auto
    moreover from u window up_times_subset [of ?bs] have "stat_upTime iv \<le> endTime" by auto
    ultimately show "?lo \<le> downAt iv \<and> downAt iv \<le> stat_upTime iv \<and> stat_upTime iv \<le> endTime"
      using le by simp
  qed
  have c6: "\<forall>b\<in>set ?bs. beat_status b = 0 \<longrightarrow>
      (\<exists>iv\<in>set ?ivs. downAt iv \<le> beat_time b \<and> beat_time b \<le> stat_upTime iv)"
    unfolding ivs using sorted upper by (rule monitor_stats_cover)
  have c7: "\<forall>b\<in>set ?bs. beat_status b = 1 \<longrightarrow>
      (\<forall>iv\<in>set ?ivs. \<not> (downAt iv < beat_time b \<and> beat_time b < stat_upTime iv))"
    unfolding ivs using sorted by (rule monitor_stats_no_up_inside)
  have c8: "endTime mod 1000 = 0 \<and> (\<forall>b\<in>set ?bs. beat_time b mod 1000 = 0) \<and>
      endTime - ?lo < 2 ^ 53 \<longrightarrow>
      js_sum (map js_seconds ?ivs) = sum_list (map stat_seconds ?ivs)"
  proof
    assume whole: "endTime mod 1000 = 0 \<and> (\<forall>b\<in>set ?bs. beat_time b mod 1000 = 0) \<and>
      endTime - ?lo < 2 ^ 53"
    have "\<forall>iv\<in>set ?ivs. downAt iv mod 1000 = 0 \<and> stat_upTime iv mod 1000 = 0"
    proof
      fix iv assume "iv \<in> set ?ivs"
      with ends have d: "downAt iv \<in> beat_time ` set ?bs"
        and u: "stat_upTime iv \<in> beat_time ` set ?bs \<or> stat_upTime iv = endTime"
        using down_times_subset [of ?bs] up_times_subset [of ?bs] by auto
      from d whole have "downAt iv mod 1000 = 0" by auto
      moreover from u whole have "stat_upTime iv mod 1000 = 0" by auto
      ultimately show "downAt iv mod 1000 = 0 \<and> stat_upTime iv mod 1000 = 0" by simp
    qed
    with c4 c5 whole obtain K where
      "js_sum (map js_seconds ?ivs) = of_int K" "sum_list (map stat_seconds ?ivs) = of_int K"
      using whole_seconds_exact [of ?ivs ?lo endTime] by blast
    then show "js_sum (map js_seconds ?ivs) = sum_list (map stat_seconds ?ivs)" by simp
  qed
  from c0 c1 c3 c8 c4 c5 c6 c7 show ?thesis by blast
qed


lemma stat_seconds_example_1:
  "sum_list (map stat_seconds [stat_record (mon 1) (Some 600000) 1500000]) = 900"
  by simp

theorem intervals_and_total_witness:
  "completion_order [mon 1, mon 2] [mon 2, mon 1] \<and>
   distinct (map monitor_id [mon 1, mon 2]) \<and>
   mon 1 \<in> set [mon 1, mon 2] \<and>
   (3600000::int) mod 1000 = 0 \<and>
   getAll_heartbeat [beat 1 600000 0, beat 1 1500000 1, beat 2 3000000 0] (monitor_id (mon 1))
     0 3600000 = [beat 1 600000 0, beat 1 1500000 1] \<and>
   beat_time (beat 1 600000 0) mod 1000 = 0 \<and> beat_time (beat 1 1500000 1) mod 1000 = 0 \<and>
   3600000 - 1000 * datetime 0 < (2::int) ^ 53 \<and>
   filter (\<lambda>iv. stat_monitor_id iv = monitor_id (mon 1))
     (concat (map (stats_of [beat 1 600000 0, beat 1 1500000 1, beat 2 3000000 0] 0 3600000)
        [mon 2, mon 1])) =
     [stat_record (mon 1) (Some 600000) 1500000] \<and>
   filter (\<lambda>t. total_monitor_id t = monitor_id (mon 1))
     (map (total_of [beat 1 600000 0, beat 1 1500000 1, beat 2 3000000 0] 0 3600000)
        [mon 2, mon 1]) =
     [total_record (mon 1) ''00:15:00''] \<and>
   js_sum (map js_seconds [stat_record (mon 1) (Some 600000) 1500000]) = 900 \<and>
   sum_list (map stat_seconds [stat_record (mon 1) (Some 600000) 1500000]) = 900"
proof -
  have h1: "completion_order [mon 1, mon 2] [mon 2, mon 1]"
    by (simp add: completion_order_def)
  have h2: "distinct (map monitor_id [mon 1, mon 2])"
    by (simp add: mon_def)
  have h3: "mon 1 \<in> set [mon 1, mon 2]"
    by simp
  have id1: "monitor_id (mon 1) = 1" by (simp add: mon_def)
  have q: "getAll_heartbeat [beat 1 600000 0, beat 1 1500000 1, beat 2 3000000 0] (monitor_id (mon 1))
     0 3600000 = [beat 1 600000 0, beat 1 1500000 1]"
    by (simp only: id1 getAll_example_1)
  have w1: "(3600000::int) mod 1000 = 0" by simp
  have w2: "beat_time (beat 1 600000 0) mod 1000 = 0" "beat_time (beat 1 1500000 1) mod 1000 = 0"
    by (simp_all add: beat_def)
  have w3: "3600000 - 1000 * datetime 0 < (2::int) ^ 53" by (simp add: datetime_def)
  have w: "(3600000::int) mod 1000 = 0 \<and>
      (\<forall>b\<in>set (getAll_heartbeat [beat 1 600000 0, beat 1 1500000 1, beat 2 3000000 0]
          (monitor_id (mon 1)) 0 3600000). beat_time b mod 1000 = 0) \<and>
      3600000 - 1000 * datetime 0 < (2::int) ^ 53"
    using w1 w2 w3 by (simp add: q)
  note T = intervals_and_total [OF h1 h2 h3,
      of "[beat 1 600000 0, beat 1 1500000 1, beat 2 3000000 0]" 0 3600000]
  have a: "filter (\<lambda>iv. stat_monitor_id iv = monitor_id (mon 1))
     (concat (map (stats_of [beat 1 600000 0, beat 1 1500000 1, beat 2 3000000 0] 0 3600000)
        [mon 2, mon 1])) =
     [stat_record (mon 1) (Some 600000) 1500000]"
    using T [THEN conjunct2, THEN conjunct1] by (simp only: stats_of_example_1)
  have exact: "js_sum (map js_seconds [stat_record (mon 1) (Some 600000) 1500000]) =
      sum_list (map stat_seconds [stat_record (mon 1) (Some 600000) 1500000])"
    using T [THEN conjunct2, THEN conjunct2, THEN conjunct2, THEN conjunct1, THEN mp, OF w]
    by (simp only: stats_of_example_1)
  then have b: "js_sum (map js_seconds [stat_record (mon 1) (Some 600000) 1500000]) = 900"
    by (simp only: stat_seconds_example_1)
  have c: "filter (\<lambda>t. total_monitor_id t = monitor_id (mon 1))
     (map (total_of [beat 1 600000 0, beat 1 1500000 1, beat 2 3000000 0] 0 3600000)
        [mon 2, mon 1]) =
     [total_record (mon 1) ''00:15:00'']"
    using T [THEN conjunct2, THEN conjunct2, THEN conjunct1]
    by (simp only: stats_of_example_1 b formatTime_900)
  from h1 h2 h3 w1 q w2 w3 a c b stat_seconds_example_1 show ?thesis by blast
qed

text \<open>
  Three outages of 0.7, 0.2 and 0.1 seconds: their lengths add up to one second, the
  total of the code is the double below 1 and is formatted as no second.
\<close>

lemma js_sum_example:
  "js_add (js_add (js_add 0 (js_div 700 1000)) (js_div 200 1000)) (js_div 100 1000) =
     1 - 1 / 2 ^ 53"
  by code_simp

lemma formatTime_below_1: "formatTime (1 - 1 / 2 ^ 53) = ''00:00:00''"
  by code_simp

lemma formatTime_1: "formatTime 1 = ''00:00:01''"
  by code_simp

lemma getAll_example_3:
  "getAll_heartbeat
     [beat 1 1000 0, beat 1 1700 1, beat 1 2000 0, beat 1 2200 1, beat 1 3000 0, beat 1 3100 1]
     1 0 10000 =
     [beat 1 1000 0, beat 1 1700 1, beat 1 2000 0, beat 1 2200 1, beat 1 3000 0, beat 1 3100 1]"
  by (simp add: getAll_heartbeat_def time_ge_def time_le_def datetime_def has_fraction_def beat_def)

lemma stats_of_example_3:
  "stats_of
     [beat 1 1000 0, beat 1 1700 1, beat 1 2000 0, beat 1 2200 1, beat 1 3000 0, beat 1 3100 1]
     0 10000 (mon 1) =
     [stat_record (mon 1) (Some 1000) 1700, stat_record (mon 1) (Some 2000) 2200,
      stat_record (mon 1) (Some 3000) 3100]"
proof -
  have "monitor_id (mon 1) = 1" by (simp add: mon_def)
  then show ?thesis
    by (simp add: stats_of_def getAll_example_3)
       (simp add: monitor_stats_def final_state_def forEach_beat_def beat_step_def close_open_def
         init_state_def beat_def stat_record_def Let_def)
qed

theorem rounded_total_below_sum:
  "sum_list (map stat_seconds (stats_of
     [beat 1 1000 0, beat 1 1700 1, beat 1 2000 0, beat 1 2200 1, beat 1 3000 0, beat 1 3100 1]
     0 10000 (mon 1))) = 1 \<and>
   seconds_of
     [beat 1 1000 0, beat 1 1700 1, beat 1 2000 0, beat 1 2200 1, beat 1 3000 0, beat 1 3100 1]
     0 10000 (mon 1) = 1 - 1 / 2 ^ 53 \<and>
   total_of
     [beat 1 1000 0, beat 1 1700 1, beat 1 2000 0, beat 1 2200 1, beat 1 3000 0, beat 1 3100 1]
     0 10000 (mon 1) = total_record (mon 1) ''00:00:00'' \<and>
   formatTime 1 = ''00:00:01''"
proof -
  have sum: "sum_list (map stat_seconds (stats_of
     [beat 1 1000 0, beat 1 1700 1, beat 1 2000 0, beat 1 2200 1, beat 1 3000 0, beat 1 3100 1]
     0 10000 (mon 1))) = 1"
    by (simp add: stats_of_example_3)
  have "seconds_of
     [beat 1 1000 0, beat 1 1700 1, beat 1 2000 0, beat 1 2200 1, beat 1 3000 0, beat 1 3100 1]
     0 10000 (mon 1) =
     js_add (js_add (js_add 0 (js_div 700 1000)) (js_div 200 1000)) (js_div 100 1000)"
    by (simp add: seconds_of_sum stats_of_example_3 js_sum_def js_sub_def round_double_numeral)
  then have sec: "seconds_of
     [beat 1 1000 0, beat 1 1700 1, beat 1 2000 0, beat 1 2200 1, beat 1 3000 0, beat 1 3100 1]
     0 10000 (mon 1) = 1 - 1 / 2 ^ 53"
    by (simp only: js_sum_example)
  have "total_of
     [beat 1 1000 0, beat 1 1700 1, beat 1 2000 0, beat 1 2200 1, beat 1 3000 0, beat 1 3100 1]
     0 10000 (mon 1) = total_record (mon 1) ''00:00:00''"
    by (simp only: total_of_def sec formatTime_below_1)
  with sum sec formatTime_1 show ?thesis by blast
qed

subsection \<open>The fields of a formatted duration\<close>

lemma int_div_bounds:
  fixes n b :: int
  assumes "0 < b"
  shows "n div b * b \<le> n" and "n + 1 \<le> (n div b + 1) * b"
proof -
  have eq: "n div b * b + n mod b = n" by simp
  have "0 \<le> n mod b" and "n mod b < b" using assms by simp_all
  with eq show "n div b * b \<le> n" by linarith
  have "(n div b + 1) * b = n div b * b + b" by (simp add: algebra_simps)
  with eq \<open>n mod b < b\<close> show "n + 1 \<le> (n div b + 1) * b" by linarith
qed

lemma floor_divide_rat:
  fixes x :: rat and b :: int
  assumes "0 < b"
  shows "\<lfloor>x / of_int b\<rfloor> = \<lfloor>x\<rfloor> div b"
proof (rule floor_unique)
  have pos: "(0::rat) < of_int b" using assms by simp
  have "(of_int (\<lfloor>x\<rfloor> div b * b) :: rat) \<le> of_int \<lfloor>x\<rfloor>"
    using int_div_bounds(1) [OF assms, of "\<lfloor>x\<rfloor>"] by (simp only: of_int_le_iff)
  also have "\<dots> \<le> x" by simp
  finally have "of_int (\<lfloor>x\<rfloor> div b) * of_int b \<le> x" by simp
  then show "of_int (\<lfloor>x\<rfloor> div b) \<le> x / of_int b"
    using pos by (simp add: pos_le_divide_eq)
  have "(of_int (\<lfloor>x\<rfloor> + 1) :: rat) \<le> of_int ((\<lfloor>x\<rfloor> div b + 1) * b)"
    using int_div_bounds(2) [OF assms, of "\<lfloor>x\<rfloor>"] by (simp only: of_int_le_iff)
  moreover have "x < of_int (\<lfloor>x\<rfloor> + 1)" using floor_correct [of x] by simp
  ultimately have "x < (of_int (\<lfloor>x\<rfloor> div b) + 1) * of_int b" by simp
  then show "x / of_int b < of_int (\<lfloor>x\<rfloor> div b) + 1"
    using pos by (simp add: pos_divide_less_eq)
qed

lemma js_rem_nonneg:
  fixes t :: rat and b :: int
  assumes "0 \<le> t" and "0 < b"
  shows "js_rem t (of_int b) = t - of_int (b * (\<lfloor>t\<rfloor> div b))"
proof -
  have "0 \<le> t / of_int b" using assms by simp
  then show ?thesis
    using assms(2) by (simp add: js_rem_def floor_divide_rat)
qed

lemma floor_hours:
  fixes t :: rat
  shows "\<lfloor>t / 3600\<rfloor> = \<lfloor>t\<rfloor> div 3600"
  using floor_divide_rat [of 3600 t] by simp

lemma floor_minutes:
  fixes t :: rat
  assumes "0 \<le> t"
  shows "\<lfloor>js_rem t 3600 / 60\<rfloor> = \<lfloor>t\<rfloor> mod 3600 div 60"
proof -
  have "js_rem t 3600 = t - of_int (3600 * (\<lfloor>t\<rfloor> div 3600))"
    using js_rem_nonneg [OF assms, of 3600] by simp
  then have "\<lfloor>js_rem t 3600 / 60\<rfloor> = \<lfloor>t - of_int (3600 * (\<lfloor>t\<rfloor> div 3600))\<rfloor> div 60"
    using floor_divide_rat [of 60 "js_rem t 3600"] by simp
  also have "\<dots> = (\<lfloor>t\<rfloor> - 3600 * (\<lfloor>t\<rfloor> div 3600)) div 60"
    by (simp only: floor_diff_of_int)
  also have "\<lfloor>t\<rfloor> - 3600 * (\<lfloor>t\<rfloor> div 3600) = \<lfloor>t\<rfloor> mod 3600"
    by (simp add: minus_mult_div_eq_mod)
  finally show ?thesis .
qed

lemma floor_seconds:
  fixes t :: rat
  assumes "0 \<le> t"
  shows "\<lfloor>js_rem t 60\<rfloor> = \<lfloor>t\<rfloor> mod 60"
proof -
  have "js_rem t 60 = t - of_int (60 * (\<lfloor>t\<rfloor> div 60))"
    using js_rem_nonneg [OF assms, of 60] by simp
  then have "\<lfloor>js_rem t 60\<rfloor> = \<lfloor>t\<rfloor> - 60 * (\<lfloor>t\<rfloor> div 60)"
    by (simp only: floor_diff_of_int)
  then show ?thesis by (simp add: minus_mult_div_eq_mod)
qed

text \<open>Decimal numerals read back.\<close>

lemma digit_char_cases:
  assumes "d < 10"
  shows "is_digit (digit_char d) \<and> digit_val (digit_char d) = d"
proof -
  from assms have "d \<in> {0, 1, 2, 3, 4, 5, 6, 7, 8, 9}" by auto
  then show ?thesis
    by (auto simp add: is_digit_def digit_val_def digit_char_def)
qed

lemma read_nat_snoc: "read_nat (s @ [c]) = 10 * read_nat s + digit_val c"
  by (simp add: read_nat_def)

lemma string_of_nat_small: "n < 10 \<Longrightarrow> string_of_nat n = [digit_char n]"
  by (simp add: string_of_nat.simps)

lemma string_of_nat_large:
  "\<not> n < 10 \<Longrightarrow> string_of_nat n = string_of_nat (n div 10) @ [digit_char (n mod 10)]"
  by (subst string_of_nat.simps) simp

lemma string_of_nat_read:
  "list_all is_digit (string_of_nat n) \<and> read_nat (string_of_nat n) = n \<and> string_of_nat n \<noteq> []"
proof (induction n rule: string_of_nat.induct)
  case (1 n)
  show ?case
  proof (cases "n < 10")
    case True
    then show ?thesis
      using digit_char_cases [of n] by (simp add: string_of_nat_small read_nat_def)
  next
    case False
    have "n mod 10 < 10" by simp
    then have d: "is_digit (digit_char (n mod 10))" "digit_val (digit_char (n mod 10)) = n mod 10"
      using digit_char_cases by blast+
    from False 1 have ih: "list_all is_digit (string_of_nat (n div 10))"
      "read_nat (string_of_nat (n div 10)) = n div 10"
      by simp_all
    show ?thesis
      using d ih by (simp add: string_of_nat_large [OF False] read_nat_snoc)
  qed
qed

lemma string_of_nat_length:
  "n < 100 \<Longrightarrow> length (string_of_nat n) \<le> 2"
proof -
  assume n: "n < 100"
  show ?thesis
  proof (cases "n < 10")
    case True
    then show ?thesis by (simp add: string_of_nat_small)
  next
    case False
    from n have "n div 10 < 10" by simp
    then show ?thesis
      by (simp add: string_of_nat_large [OF False] string_of_nat_small)
  qed
qed

lemma foldl_zeros:
  "foldl (\<lambda>a c. 10 * a + digit_val c) 0 (replicate k CHR ''0'') = (0::nat)"
proof (induction k)
  case 0
  show ?case by simp
next
  case (Suc k)
  have "replicate (Suc k) CHR ''0'' = replicate k CHR ''0'' @ [CHR ''0'']"
    by (simp add: replicate_append_same)
  then show ?case using Suc by (simp add: digit_val_def)
qed

lemma read_nat_zeros: "read_nat (replicate k CHR ''0'' @ s) = read_nat s"
  by (simp add: read_nat_def foldl_zeros)

lemma pad_field:
  assumes "0 \<le> i"
  shows "list_all is_digit (padStart 2 CHR ''0'' (String_of i)) \<and>
    int (read_nat (padStart 2 CHR ''0'' (String_of i))) = i \<and>
    2 \<le> length (padStart 2 CHR ''0'' (String_of i)) \<and>
    (i < 100 \<longrightarrow> length (padStart 2 CHR ''0'' (String_of i)) = 2)"
proof -
  let ?s = "string_of_nat (nat i)"
  have str: "String_of i = ?s" using assms by (simp add: String_of_def)
  have zero: "is_digit CHR ''0''" by (simp add: is_digit_def)
  have digits: "list_all is_digit ?s" and rd: "read_nat ?s = nat i"
    using string_of_nat_read [of "nat i"] by simp_all
  have "i < 100 \<longrightarrow> length ?s \<le> 2"
    using assms string_of_nat_length [of "nat i"] by simp
  then have len: "i < 100 \<longrightarrow> length (padStart 2 CHR ''0'' ?s) = 2"
    by (simp add: padStart_def)
  have "list_all is_digit (padStart 2 CHR ''0'' ?s)"
    using digits zero by (auto simp add: padStart_def list_all_iff)
  moreover have "int (read_nat (padStart 2 CHR ''0'' ?s)) = i"
    using rd assms by (simp add: padStart_def read_nat_zeros)
  moreover have "2 \<le> length (padStart 2 CHR ''0'' ?s)"
    by (simp add: padStart_def)
  ultimately show ?thesis using len by (simp add: str)
qed

text \<open>
  C9. For a duration of \<open>time \<ge> 0\<close> seconds, \<open>formatTime\<close> gives three fields of decimal
  digits separated by colons. The first field has at least two digits and reads as
  \<open>\<lfloor>time / 3600\<rfloor>\<close>, with no carry into days: from 24 hours on it reads as 24 or more.
  The second and the third field have two digits each and read as numbers below 60.
  Together the fields give back the whole seconds of the duration.
\<close>

theorem formatTime_fields:
  assumes "0 \<le> time"
  shows "\<exists>hours minutes seconds.
    formatTime time = hours @ '':'' @ minutes @ '':'' @ seconds \<and>
    list_all is_digit hours \<and> 2 \<le> length hours \<and>
    int (read_nat hours) = \<lfloor>time / 3600\<rfloor> \<and>
    list_all is_digit minutes \<and> length minutes = 2 \<and> read_nat minutes < 60 \<and>
    list_all is_digit seconds \<and> length seconds = 2 \<and> read_nat seconds < 60 \<and>
    int (3600 * read_nat hours + 60 * read_nat minutes + read_nat seconds) = \<lfloor>time\<rfloor> \<and>
    (86400 \<le> time \<longrightarrow> 24 \<le> read_nat hours)"
proof -
  let ?n = "\<lfloor>time\<rfloor>"
  let ?H = "\<lfloor>time / 3600\<rfloor>"
  let ?M = "\<lfloor>js_rem time 3600 / 60\<rfloor>"
  let ?S = "\<lfloor>js_rem time 60\<rfloor>"
  let ?hours = "padStart 2 CHR ''0'' (String_of ?H)"
  let ?minutes = "padStart 2 CHR ''0'' (String_of ?M)"
  let ?seconds = "padStart 2 CHR ''0'' (String_of ?S)"
  have n: "0 \<le> ?n" using assms by simp
  have H: "?H = ?n div 3600" by (rule floor_hours)
  have M: "?M = ?n mod 3600 div 60" using assms by (rule floor_minutes)
  have S: "?S = ?n mod 60" using assms by (rule floor_seconds)
  have H0: "0 \<le> ?H" using n by (simp add: H pos_imp_zdiv_nonneg_iff)
  let ?r = "?n mod 3600"
  have r: "0 \<le> ?r" "?r < 3600" by simp_all
  have split_r: "?r = 60 * (?r div 60) + ?r mod 60" by simp
  have r60: "0 \<le> ?r mod 60" "?r mod 60 < 60" by simp_all
  have M0: "0 \<le> ?M" using r(1) by (simp add: M pos_imp_zdiv_nonneg_iff)
  have M60: "?M < 60" unfolding M using split_r r(2) r60(1) by linarith
  have S0: "0 \<le> ?S" and S60: "?S < 60" unfolding S by simp_all
  have same: "?r mod 60 = ?n mod 60" by (simp add: mod_mod_cancel)
  have split_n: "?n = 3600 * (?n div 3600) + ?r" by simp
  have total: "3600 * ?H + 60 * ?M + ?S = ?n"
    unfolding H M S using split_n split_r same by linarith
  have day: "86400 \<le> time \<longrightarrow> 24 \<le> ?H"
  proof
    assume "86400 \<le> time"
    then have "86400 \<le> ?n" by (simp add: le_floor_iff)
    then have "(86400::int) div 3600 \<le> ?n div 3600" by (rule zdiv_mono1) simp
    then show "24 \<le> ?H" unfolding H by simp
  qed
  note h = pad_field [OF H0] and m = pad_field [OF M0] and s = pad_field [OF S0]
  have hh: "int (read_nat ?hours) = ?H" using h by blast
  have mm: "int (read_nat ?minutes) = ?M" using m by blast
  have ss: "int (read_nat ?seconds) = ?S" using s by blast
  have "formatTime time = ?hours @ '':'' @ ?minutes @ '':'' @ ?seconds"
    by (simp add: formatTime_def Let_def)
  moreover have "list_all is_digit ?hours" "2 \<le> length ?hours" using h by blast+
  moreover have "list_all is_digit ?minutes" "length ?minutes = 2"
    using m M60 by auto
  moreover have "read_nat ?minutes < 60" using mm M60 by linarith
  moreover have "list_all is_digit ?seconds" "length ?seconds = 2"
    using s S60 by auto
  moreover have "read_nat ?seconds < 60" using ss S60 by linarith
  moreover have "int (3600 * read_nat ?hours + 60 * read_nat ?minutes + read_nat ?seconds) = ?n"
    using total hh mm ss by simp
  moreover have "86400 \<le> time \<longrightarrow> 24 \<le> read_nat ?hours"
    using day hh by linarith
  ultimately show ?thesis using hh by blast
qed

lemma formatTime_90000: "formatTime 90000 = ''25:00:00''"
  by code_simp

theorem formatTime_fields_witness:
  "(0::rat) \<le> 90000 \<and> (86400::rat) \<le> 90000 \<and> formatTime 90000 = ''25:00:00'' \<and>
   (\<exists>hours minutes seconds.
      formatTime 90000 = hours @ '':'' @ minutes @ '':'' @ seconds \<and>
      int (read_nat hours) = \<lfloor>(90000::rat) / 3600\<rfloor> \<and> 24 \<le> read_nat hours \<and>
      length minutes = 2 \<and> read_nat minutes < 60 \<and>
      length seconds = 2 \<and> read_nat seconds < 60)"
proof -
  have h: "(0::rat) \<le> 90000" by simp
  have d: "(86400::rat) \<le> 90000" by simp
  from formatTime_fields [OF h] d obtain hours minutes seconds where
    "formatTime 90000 = hours @ '':'' @ minutes @ '':'' @ seconds"
    "int (read_nat hours) = \<lfloor>(90000::rat) / 3600\<rfloor>" "24 \<le> read_nat hours"
    "length minutes = 2" "read_nat minutes < 60"
    "length seconds = 2" "read_nat seconds < 60"
    by blast
  then show ?thesis using h d formatTime_90000 by blast
qed

end
